theory Spec2Isabelle
  imports Main
begin

section \<open>Strings and lines\<close>

text \<open>
  A JavaScript string is modelled as an Isabelle \<open>string\<close>: each \<open>char\<close> is one
  UTF-16 code unit, and the model covers the strings whose code units are below 256.
  In that range the white space of \<open>\s\<close> and of \<open>trim\<close> is TAB, LF, VT, FF, CR, SPACE
  and NBSP, and the line terminators that \<open>.\<close> refuses are LF and CR.
\<close>

definition LF :: char where
  "LF = CHR 0x0A"

definition CR :: char where
  "CR = CHR 0x0D"

definition isSpace :: "char \<Rightarrow> bool" where
  "isSpace c \<longleftrightarrow>
     c = CHR 0x09 \<or> c = CHR 0x0A \<or> c = CHR 0x0B \<or> c = CHR 0x0C \<or> c = CHR 0x0D \<or>
     c = CHR 0x20 \<or> c = CHR 0xA0"

definition isLineTerminator :: "char \<Rightarrow> bool" where
  "isLineTerminator c \<longleftrightarrow> c = CHR 0x0A \<or> c = CHR 0x0D"

definition trimStart :: "string \<Rightarrow> string" where
  "trimStart s = dropWhile isSpace s"

definition trimEnd :: "string \<Rightarrow> string" where
  "trimEnd s = rev (dropWhile isSpace (rev s))"

definition trim :: "string \<Rightarrow> string" where
  "trim s = trimEnd (trimStart s)"

text \<open>\<open>String(l).trim() === ""\<close>\<close>

definition isBlank :: "string \<Rightarrow> bool" where
  "isBlank l \<longleftrightarrow> trim l = []"

definition lowerChar :: "char \<Rightarrow> char" where
  "lowerChar c =
     (let n = (of_char c :: nat)
      in if (65 \<le> n \<and> n \<le> 90) \<or> (192 \<le> n \<and> n \<le> 222 \<and> n \<noteq> 215)
         then char_of (n + 32) else c)"

definition toLowerCase :: "string \<Rightarrow> string" where
  "toLowerCase s = map lowerChar s"

text \<open>The character class \<open>[A-Za-z0-9_-]\<close>.\<close>

definition isIdChar :: "char \<Rightarrow> bool" where
  "isIdChar c \<longleftrightarrow>
     (let n = (of_char c :: nat)
      in (65 \<le> n \<and> n \<le> 90) \<or> (97 \<le> n \<and> n \<le> 122) \<or> (48 \<le> n \<and> n \<le> 57) \<or>
         c = CHR ''_'' \<or> c = CHR ''-'')"

text \<open>
  \<open>text.split(/\r?\n/)\<close>: the text is cut at every LF, and a CR immediately before
  that LF belongs to the separator. The result is never empty: the empty text has the
  single line \<open>""\<close>.
\<close>

fun splitLines :: "string \<Rightarrow> string list" where
  "splitLines [] = [[]]"
| "splitLines (c # cs) =
     (if c = LF then [] # splitLines cs
      else if c = CR \<and> cs \<noteq> [] \<and> hd cs = LF then [] # splitLines (tl cs)
      else (case splitLines cs of
              [] \<Rightarrow> [[c]]
            | l # ls \<Rightarrow> (c # l) # ls))"

text \<open>\<open>lines.join("\n")\<close>\<close>

fun joinLines :: "string list \<Rightarrow> string" where
  "joinLines [] = []"
| "joinLines [l] = l"
| "joinLines (l # m # ls) = l @ LF # joinLines (m # ls)"

definition endsWithLF :: "string \<Rightarrow> bool" where
  "endsWithLF s \<longleftrightarrow> s \<noteq> [] \<and> last s = LF"

text \<open>
  \<open>uniqLower\<close>: trim and lower-case every entry, drop the empty ones, and keep the first
  occurrence of each (the insertion order of a \<open>Set\<close>).
\<close>

definition uniqLower :: "string list \<Rightarrow> string list" where
  "uniqLower arr =
     fold (\<lambda>s acc. if s \<in> set acc then acc else acc @ [s])
       (filter (\<lambda>s. s \<noteq> []) (map (\<lambda>s. toLowerCase (trim s)) arr)) []"

section \<open>Line-model utilities\<close>

text \<open>
  \<open>parseCalloutStart\<close>: the regular expression \<open>/^>\s*\[!([^\]\s]+)\]/i\<close>. After the
  marker and any white space come \<open>[!\<close>, a non-empty run of characters that are neither
  \<open>]\<close> nor white space, and \<open>]\<close>. The result is the lower-cased run.
\<close>

definition parseCalloutStart :: "string \<Rightarrow> string option" where
  "parseCalloutStart line =
     (case line of
        [] \<Rightarrow> None
      | c # r \<Rightarrow>
          if c \<noteq> CHR ''>'' then None
          else (case dropWhile isSpace r of
                  a # b # r2 \<Rightarrow>
                    if a = CHR ''['' \<and> b = CHR ''!'' then
                      (let g = takeWhile (\<lambda>x. x \<noteq> CHR '']'' \<and> \<not> isSpace x) r2;
                           r3 = dropWhile (\<lambda>x. x \<noteq> CHR '']'' \<and> \<not> isSpace x) r2
                       in if g \<noteq> [] \<and> r3 \<noteq> [] \<and> hd r3 = CHR '']''
                          then Some (toLowerCase g) else None)
                    else None
                | _ \<Rightarrow> None))"

text \<open>\<open>unquoteLine\<close>: \<open>line.replace(/^>\s?/, "")\<close>\<close>

fun unquoteLine :: "string \<Rightarrow> string" where
  "unquoteLine [] = []"
| "unquoteLine (c # r) =
     (if c = CHR ''>'' then
        (case r of [] \<Rightarrow> [] | d # r' \<Rightarrow> if isSpace d then r' else r)
      else c # r)"

definition quoteBodyLines :: "string list \<Rightarrow> string list" where
  "quoteBodyLines bodyLines = map (\<lambda>l. if trim l = [] then ''>'' else ''> '' @ l) bodyLines"

definition trimTrailingBlankLines :: "string list \<Rightarrow> string list" where
  "trimTrailingBlankLines lines = rev (dropWhile isBlank (rev lines))"

text \<open>
  \<open>parseBlockId\<close>: the trimmed line against \<open>/^\^([A-Za-z0-9_-]+)\s*$/\<close>. The trimmed
  line has no trailing white space, so it is a caret and a non-empty run of identifier
  characters.
\<close>

definition parseBlockId :: "string \<Rightarrow> string option" where
  "parseBlockId line =
     (case trim line of
        [] \<Rightarrow> None
      | c # r \<Rightarrow>
          (let g = takeWhile isIdChar r; r2 = dropWhile isIdChar r
           in if c = CHR ''^'' \<and> g \<noteq> [] \<and> list_all isSpace r2 then Some g else None))"

text \<open>The test of the body loop: \<open>String(lines[j]).trimStart().startsWith(">")\<close>\<close>

definition isQuoted :: "string \<Rightarrow> bool" where
  "isQuoted l \<longleftrightarrow> (case trimStart l of [] \<Rightarrow> False | c # _ \<Rightarrow> c = CHR ''>'')"

section \<open>Callout parser\<close>

record callout =
  ctype :: string
  blockId :: "string option"
  bodyLines :: "string list"
  startLine :: nat
  quoteEndLine :: nat
  idLine :: "nat option"

text \<open>
  One iteration of the \<open>for\<close> loop of \<open>extractTrackedCallouts\<close> at index \<open>i\<close>. The loop
  reads and changes only lines at index \<open>i\<close> and above, so the iteration is given the
  line \<open>l\<close> at \<open>i\<close> and the lines \<open>rest\<close> after it. It returns the lines it leaves behind
  (those below the next index), the callout it pushed, the number of identifiers
  generated so far, the next index and the lines from there on.
  \<open>gen n\<close> is the value of the \<open>n\<close>-th call of \<open>generateId\<close>.
\<close>

definition calloutStep ::
  "string list \<Rightarrow> bool \<Rightarrow> (nat \<Rightarrow> string) \<Rightarrow> nat \<Rightarrow> nat \<Rightarrow> string \<Rightarrow> string list \<Rightarrow>
     string list \<times> callout option \<times> nat \<times> nat \<times> string list" where
  "calloutStep trackedTypes autoInsertIds gen n i l rest =
     (case parseCalloutStart l of
        None \<Rightarrow> ([l], None, n, i + 1, rest)
      | Some ty \<Rightarrow>
          if ty \<notin> set trackedTypes then ([l], None, n, i + 1, rest)
          else
            (let quoted = takeWhile isQuoted rest;
                 after = dropWhile isQuoted rest;
                 body = map unquoteLine quoted;
                 qEnd = i + 1 + length quoted;
                 blanks = takeWhile isBlank after;
                 tail = dropWhile isBlank after;
                 found = (case tail of [] \<Rightarrow> None | x # _ \<Rightarrow> parseBlockId x)
             in case found of
                  Some b \<Rightarrow>
                    (l # quoted @ blanks @ [hd tail],
                     Some \<lparr>ctype = ty, blockId = Some b,
                           bodyLines = trimTrailingBlankLines body, startLine = i,
                           quoteEndLine = qEnd, idLine = Some (qEnd + length blanks)\<rparr>,
                     n, qEnd + length blanks + 1, tl tail)
                | None \<Rightarrow>
                    if autoInsertIds then
                      (let b = gen n;
                           blankAbove = (if after = [] \<or> \<not> isBlank (hd after) then [[]] else []);
                           idl = qEnd + length blankAbove;
                           blankBelow = (if after = [] \<or> \<not> isBlank (hd after) then [[]] else [])
                       in (l # quoted @ blankAbove @ [CHR ''^'' # b],
                           Some \<lparr>ctype = ty, blockId = Some b,
                                 bodyLines = trimTrailingBlankLines body, startLine = i,
                                 quoteEndLine = qEnd, idLine = Some idl\<rparr>,
                           n + 1, idl + 1, blankBelow @ after))
                    else
                      (l # quoted,
                       Some \<lparr>ctype = ty, blockId = None,
                             bodyLines = trimTrailingBlankLines body, startLine = i,
                             quoteEndLine = qEnd, idLine = None\<rparr>,
                       n, qEnd, after)))"

text \<open>The measure of the loop: an inserted blank line counts less than any other line.\<close>

definition scanMeasure :: "string list \<Rightarrow> nat" where
  "scanMeasure ls = 2 * length ls - (if ls \<noteq> [] \<and> hd ls = [] then 1 else 0)"

lemma parseCalloutStart_nonempty: "parseCalloutStart l = Some ty \<Longrightarrow> l \<noteq> []"
  by (auto simp: parseCalloutStart_def)

lemma scanMeasure_Cons_le: "scanMeasure ls < 2 * length ls + 2"
  by (simp add: scanMeasure_def)

lemma scanMeasure_header:
  "l \<noteq> [] \<Longrightarrow> scanMeasure (l # rest) = 2 * length rest + 2"
  by (simp add: scanMeasure_def)

lemma scanMeasure_any: "2 * length rest + 1 \<le> scanMeasure (l # rest)"
  by (simp add: scanMeasure_def)

lemma scanMeasure_le: "scanMeasure ls \<le> 2 * length ls"
  by (simp add: scanMeasure_def)

lemma calloutStep_decreases:
  assumes "calloutStep tt auto gen n i l rest = (emit, co, n', i', rest')"
  shows "scanMeasure rest' < scanMeasure (l # rest)"
proof (cases "parseCalloutStart l")
  case None
  with assms have "rest' = rest" by (simp add: calloutStep_def)
  moreover have "scanMeasure rest < scanMeasure (l # rest)"
    using scanMeasure_le [of rest] scanMeasure_any [of rest l] by linarith
  ultimately show ?thesis by simp
next
  case (Some ty)
  then have hd: "scanMeasure (l # rest) = 2 * length rest + 2"
    using parseCalloutStart_nonempty scanMeasure_header by blast
  have a: "length (dropWhile isQuoted rest) \<le> length rest"
    by (rule length_dropWhile_le)
  have b: "length (tl (dropWhile isBlank (dropWhile isQuoted rest))) \<le> length rest"
    using length_dropWhile_le [of isBlank "dropWhile isQuoted rest"] a by simp
  have "length rest' \<le> length rest \<or>
        (rest' = [] # dropWhile isQuoted rest)"
    using assms Some a b
    by (auto simp: calloutStep_def Let_def split: if_splits option.splits)
  then show ?thesis
  proof
    assume "length rest' \<le> length rest"
    then show ?thesis using hd scanMeasure_le [of rest'] by linarith
  next
    assume "rest' = [] # dropWhile isQuoted rest"
    then have "scanMeasure rest' = 2 * length (dropWhile isQuoted rest) + 1"
      by (simp add: scanMeasure_def)
    then show ?thesis using hd a by linarith
  qed
qed

text \<open>
  The loop of \<open>extractTrackedCallouts\<close> from index \<open>i\<close>, over the lines from \<open>i\<close> on:
  the final lines from \<open>i\<close> on and the callouts pushed.
\<close>

function scanCallouts ::
  "string list \<Rightarrow> bool \<Rightarrow> (nat \<Rightarrow> string) \<Rightarrow> nat \<Rightarrow> nat \<Rightarrow> string list \<Rightarrow>
     string list \<times> callout list" where
  "scanCallouts trackedTypes autoInsertIds gen n i [] = ([], [])"
| "scanCallouts trackedTypes autoInsertIds gen n i (l # rest) =
     (case calloutStep trackedTypes autoInsertIds gen n i l rest of
        (emit, co, n', i', rest') \<Rightarrow>
          (case scanCallouts trackedTypes autoInsertIds gen n' i' rest' of
             (out, cs) \<Rightarrow>
               (emit @ out, (case co of None \<Rightarrow> cs | Some c \<Rightarrow> c # cs))))"
  by pat_completeness auto
termination
  by (relation "measure (\<lambda>(tt, auto, gen, n, i, ls). scanMeasure ls)")
     (auto dest: calloutStep_decreases [OF sym])

definition extractTrackedCallouts ::
  "string \<Rightarrow> string list \<Rightarrow> bool \<Rightarrow> (nat \<Rightarrow> string) \<Rightarrow> string \<times> callout list" where
  "extractTrackedCallouts text trackedTypes autoInsertIds gen =
     (case scanCallouts (uniqLower trackedTypes) autoInsertIds gen 0 0 (splitLines text) of
        (lines, callouts) \<Rightarrow> (joinLines lines, callouts))"

section \<open>Master-chunk parser\<close>

text \<open>
  \<open>normalizePath\<close> is the host's and \<open>decodeURI\<close> is the language's: both are
  parameters of the model. \<open>decodeURI\<close> returns \<open>None\<close> where it throws.
\<close>

record host =
  normalizePath :: "string \<Rightarrow> string"
  decodeURI :: "string \<Rightarrow> string option"

datatype linkFormat = Md | Wiki

record linkHead =
  hDisplay :: string
  hPath :: string
  hBlockId :: string
  hFormat :: linkFormat

text \<open>The end of the markdown form: \<open>#\^([A-Za-z0-9_-]+)\)\s*$\<close>\<close>

definition mdTail :: "string \<Rightarrow> string option" where
  "mdTail s =
     (case s of
        a # b # r \<Rightarrow>
          if a = CHR ''#'' \<and> b = CHR ''^'' then
            (let g = takeWhile isIdChar r; r2 = dropWhile isIdChar r
             in if g \<noteq> [] \<and> r2 \<noteq> [] \<and> hd r2 = CHR '')'' \<and> list_all isSpace (tl r2)
                then Some g else None)
          else None
      | _ \<Rightarrow> None)"

text \<open>
  The lazy group \<open>(.+?)\<close> followed by the end of the form: the shortest non-empty run
  of characters other than line terminators after which the rest matches. \<open>acc\<close> is the
  run taken so far.
\<close>

fun mdPath :: "string \<Rightarrow> string \<Rightarrow> (string \<times> string) option" where
  "mdPath acc [] = None"
| "mdPath acc (c # cs) =
     (if isLineTerminator c then None
      else (case mdTail cs of
              Some g \<Rightarrow> Some (acc @ [c], g)
            | None \<Rightarrow> mdPath (acc @ [c]) cs))"

text \<open>
  \<open>/^\[([^\]]+)\]\((.+?)#\^([A-Za-z0-9_-]+)\)\s*$/\<close>: display, raw path and block id.
\<close>

definition parseMdLink :: "string \<Rightarrow> (string \<times> string \<times> string) option" where
  "parseMdLink line =
     (case line of
        [] \<Rightarrow> None
      | c # r \<Rightarrow>
          if c \<noteq> CHR ''['' then None
          else
            (let d = takeWhile (\<lambda>x. x \<noteq> CHR '']'') r;
                 r2 = dropWhile (\<lambda>x. x \<noteq> CHR '']'') r
             in if d = [] then None
                else (case r2 of
                        a # b # r3 \<Rightarrow>
                          if a = CHR '']'' \<and> b = CHR ''('' then
                            (case mdPath [] r3 of
                               Some (p, g) \<Rightarrow> Some (d, p, g)
                             | None \<Rightarrow> None)
                          else None
                      | _ \<Rightarrow> None)))"

text \<open>The end of the wiki form: \<open>#\^([A-Za-z0-9_-]+)\|([^\]]+?)\]\]\s*$\<close>\<close>

definition wikiTail :: "string \<Rightarrow> (string \<times> string) option" where
  "wikiTail s =
     (case s of
        a # b # r \<Rightarrow>
          if a = CHR ''#'' \<and> b = CHR ''^'' then
            (let g = takeWhile isIdChar r; r2 = dropWhile isIdChar r
             in if g = [] then None
                else (case r2 of
                        [] \<Rightarrow> None
                      | bar # r3 \<Rightarrow>
                          if bar \<noteq> CHR ''|'' then None
                          else
                            (let d = takeWhile (\<lambda>x. x \<noteq> CHR '']'') r3;
                                 r4 = dropWhile (\<lambda>x. x \<noteq> CHR '']'') r3
                             in if d = [] then None
                                else (case r4 of
                                        x # y # sp \<Rightarrow>
                                          if x = CHR '']'' \<and> y = CHR '']'' \<and> list_all isSpace sp
                                          then Some (g, d) else None
                                      | _ \<Rightarrow> None))))
          else None
      | _ \<Rightarrow> None)"

fun wikiPath :: "string \<Rightarrow> string \<Rightarrow> (string \<times> string \<times> string) option" where
  "wikiPath acc [] = None"
| "wikiPath acc (c # cs) =
     (if c = CHR ''|'' \<or> c = CHR '']'' then None
      else (case wikiTail cs of
              Some (g, d) \<Rightarrow> Some (acc @ [c], g, d)
            | None \<Rightarrow> wikiPath (acc @ [c]) cs))"

text \<open>
  \<open>/^\[\[([^|\]]+?)#\^([A-Za-z0-9_-]+)\|([^\]]+?)\]\]\s*$/\<close>: raw path, block id and
  display.
\<close>

definition parseWikiLink :: "string \<Rightarrow> (string \<times> string \<times> string) option" where
  "parseWikiLink line =
     (case line of
        a # b # r \<Rightarrow>
          if a = CHR ''['' \<and> b = CHR ''['' then wikiPath [] r else None
      | _ \<Rightarrow> None)"

definition decodedPath :: "host \<Rightarrow> string \<Rightarrow> string" where
  "decodedPath h rawPath = (case decodeURI h rawPath of Some p \<Rightarrow> p | None \<Rightarrow> rawPath)"

definition parseMasterLinkLine :: "host \<Rightarrow> string \<Rightarrow> linkHead option" where
  "parseMasterLinkLine h line0 =
     (let line = trim line0
      in case parseMdLink line of
           Some (d, rawPath, b) \<Rightarrow>
             Some \<lparr>hDisplay = d, hPath = normalizePath h (decodedPath h rawPath),
                   hBlockId = b, hFormat = Md\<rparr>
         | None \<Rightarrow>
             (case parseWikiLink line of
                Some (rawPath, b, d) \<Rightarrow>
                  Some \<lparr>hDisplay = d, hPath = normalizePath h (decodedPath h rawPath),
                        hBlockId = b, hFormat = Wiki\<rparr>
              | None \<Rightarrow> None))"

definition isLink :: "host \<Rightarrow> string \<Rightarrow> bool" where
  "isLink h l \<longleftrightarrow> parseMasterLinkLine h l \<noteq> None"

record chunk =
  chStart :: nat
  chEnd :: nat
  display :: string
  sourcePath :: string
  chBlockId :: string
  chBodyLines :: "string list"

text \<open>
  The loop of \<open>parseMasterChunks\<close> from index \<open>i\<close>, over the lines from \<open>i\<close> on. A
  chunk runs from its link line to the next link line or the end of the document.
\<close>

function chunksFrom :: "host \<Rightarrow> nat \<Rightarrow> string list \<Rightarrow> chunk list" where
  "chunksFrom h i [] = []"
| "chunksFrom h i (l # rest) =
     (case parseMasterLinkLine h l of
        None \<Rightarrow> chunksFrom h (i + 1) rest
      | Some head \<Rightarrow>
          (let rawBody = takeWhile (\<lambda>x. \<not> isLink h x) rest;
               j = i + 1 + length rawBody
           in \<lparr>chStart = i, chEnd = j, display = hDisplay head, sourcePath = hPath head,
                chBlockId = hBlockId head,
                chBodyLines = trimTrailingBlankLines rawBody\<rparr>
              # chunksFrom h j (dropWhile (\<lambda>x. \<not> isLink h x) rest)))"
  by pat_completeness auto
termination
  by (relation "measure (\<lambda>(h, i, ls). length ls)")
     (auto simp: less_Suc_eq_le length_dropWhile_le)

definition parseMasterChunks :: "host \<Rightarrow> string \<Rightarrow> string list \<times> chunk list" where
  "parseMasterChunks h text = (let lines = splitLines text in (lines, chunksFrom h 0 lines))"

section \<open>Chunk builder\<close>

text \<open>
  \<open>encodeURI\<close> on code units below 256: the reserved and unreserved characters and
  \<open>#\<close> stay, every other character becomes the percent-escapes of its UTF-8 bytes.
\<close>

definition uriUnescaped :: "char \<Rightarrow> bool" where
  "uriUnescaped c \<longleftrightarrow>
     (let n = (of_char c :: nat)
      in (65 \<le> n \<and> n \<le> 90) \<or> (97 \<le> n \<and> n \<le> 122) \<or> (48 \<le> n \<and> n \<le> 57) \<or>
         c \<in> set '';/?:@&=+$,-_.!~*'()#'')"

definition hexDigit :: "nat \<Rightarrow> char" where
  "hexDigit n = ''0123456789ABCDEF'' ! (n mod 16)"

definition pctByte :: "nat \<Rightarrow> string" where
  "pctByte b = [CHR ''%'', hexDigit (b div 16), hexDigit b]"

definition encodeChar :: "char \<Rightarrow> string" where
  "encodeChar c =
     (let n = (of_char c :: nat)
      in if uriUnescaped c then [c]
         else if n < 128 then pctByte n
         else pctByte (192 + n div 64) @ pctByte (128 + n mod 64))"

definition encodeURI :: "string \<Rightarrow> string" where
  "encodeURI s = concat (map encodeChar s)"

definition linkLine :: "string \<Rightarrow> string \<Rightarrow> string \<Rightarrow> string" where
  "linkLine disp srcPath bid = ''['' @ disp @ '']('' @ encodeURI srcPath @ ''#^'' @ bid @ '')''"

definition buildMasterChunkLines ::
  "string \<Rightarrow> string \<Rightarrow> string \<Rightarrow> string list \<Rightarrow> string list" where
  "buildMasterChunkLines disp srcPath bid body = linkLine disp srcPath bid # body @ [[]]"

section \<open>Line-range operations\<close>

record op =
  opStart :: nat
  opEnd :: nat
  opInsert :: "string list"

text \<open>
  \<open>lines.splice(start, deleteCount, ...items)\<close> for a non-negative \<open>start\<close>: both
  \<open>start\<close> and \<open>deleteCount\<close> are clamped to the array, as \<open>take\<close> and \<open>drop\<close> do.
\<close>

definition splice :: "nat \<Rightarrow> nat \<Rightarrow> 'a list \<Rightarrow> 'a list \<Rightarrow> 'a list" where
  "splice start deleteCount items xs = take start xs @ items @ drop (start + deleteCount) xs"

definition applyOp :: "op \<Rightarrow> string list \<Rightarrow> string list" where
  "applyOp p lines = splice (opStart p) (opEnd p - opStart p) (opInsert p) lines"

text \<open>\<open>ops.sort((a, b) => b.start - a.start)\<close>: a stable sort, descending in \<open>start\<close>.\<close>

definition sortOps :: "op list \<Rightarrow> op list" where
  "sortOps ops = sort_key (\<lambda>p. - int (opStart p)) ops"

definition applyOps :: "op list \<Rightarrow> string list \<Rightarrow> string list" where
  "applyOps ops lines = fold applyOp (sortOps ops) lines"

section \<open>Reconciler\<close>

record fileRef =
  fpath :: string
  basename :: string

text \<open>A block id inside a template literal: \<open>null\<close> prints as \<open>null\<close>.\<close>

definition idText :: "string option \<Rightarrow> string" where
  "idText b = (case b of None \<Rightarrow> ''null'' | Some s \<Rightarrow> s)"

text \<open>
  The \<open>Map\<close> from block id to callout, filled in list order: a later callout with the
  same id replaces the earlier, so a lookup finds the last one.
\<close>

definition calloutsById :: "callout list \<Rightarrow> (string option \<rightharpoonup> callout)" where
  "calloutsById cs = map_of (rev (map (\<lambda>c. (blockId c, c)) cs))"

definition chunkFor :: "fileRef \<Rightarrow> callout \<Rightarrow> string list" where
  "chunkFor sf d =
     buildMasterChunkLines (basename sf) (fpath sf) (idText (blockId d)) (bodyLines d)"

definition masterOps :: "fileRef \<Rightarrow> callout list \<Rightarrow> chunk list \<Rightarrow> op list" where
  "masterOps sf calloutsOfType existing =
     map (\<lambda>ch. case calloutsById calloutsOfType (Some (chBlockId ch)) of
                 None \<Rightarrow> \<lparr>opStart = chStart ch, opEnd = chEnd ch, opInsert = []\<rparr>
               | Some d \<Rightarrow> \<lparr>opStart = chStart ch, opEnd = chEnd ch, opInsert = chunkFor sf d\<rparr>)
       existing"

definition masterAdditions :: "fileRef \<Rightarrow> callout list \<Rightarrow> chunk list \<Rightarrow> string list" where
  "masterAdditions sf calloutsOfType existing =
     concat (map (chunkFor sf)
       (filter (\<lambda>d. blockId d \<notin> Some ` set (map chBlockId existing)) calloutsOfType))"

definition ensureFinalLF :: "string \<Rightarrow> string" where
  "ensureFinalLF out = (if endsWithLF out then out else out @ [LF])"

text \<open>
  \<open>updateMasterForSourceFile\<close>, from the master's text to the text handed to
  \<open>writeFileIfChanged\<close>.
\<close>

definition updateMasterText :: "host \<Rightarrow> fileRef \<Rightarrow> callout list \<Rightarrow> string \<Rightarrow> string" where
  "updateMasterText h sf calloutsOfType masterText =
     (case parseMasterChunks h masterText of
        (lines, chunks) \<Rightarrow>
          (let existing = filter (\<lambda>c. sourcePath c = fpath sf) chunks;
               ops = masterOps sf calloutsOfType existing;
               additions = masterAdditions sf calloutsOfType existing;
               lines1 = applyOps ops lines;
               lines2 = (if additions \<noteq> [] then
                           (if lines1 \<noteq> [] \<and> \<not> isBlank (last lines1) then lines1 @ [[]]
                            else lines1) @ additions
                         else lines1)
           in ensureFinalLF (joinLines lines2)))"

text \<open>
  \<open>writeFileIfChanged\<close> on a markdown file: the file's content afterwards, and whether
  \<open>vault.modify\<close> was called.
\<close>

definition writeFileIfChanged :: "string \<Rightarrow> string \<Rightarrow> string \<times> bool" where
  "writeFileIfChanged oldText newText =
     (if oldText = newText then (oldText, False) else (newText, True))"

definition updateMasterForSourceFile ::
  "host \<Rightarrow> fileRef \<Rightarrow> callout list \<Rightarrow> string \<Rightarrow> string \<times> bool" where
  "updateMasterForSourceFile h sf calloutsOfType masterText =
     writeFileIfChanged masterText (updateMasterText h sf calloutsOfType masterText)"

text \<open>The generator of a pass that never generates: \<open>autoInsertIds\<close> is false there.\<close>

definition noIds :: "nat \<Rightarrow> string" where
  "noIds n = []"

definition sourceOps :: "callout list \<Rightarrow> chunk list \<Rightarrow> op list" where
  "sourceOps callouts entries =
     concat (map (\<lambda>e. case calloutsById callouts (Some (chBlockId e)) of
                         None \<Rightarrow> []
                       | Some c \<Rightarrow>
                           [\<lparr>opStart = startLine c + 1, opEnd = quoteEndLine c,
                             opInsert = quoteBodyLines (chBodyLines e)\<rparr>])
       entries)"

definition applyMasterEditsToSource :: "string \<Rightarrow> string \<Rightarrow> chunk list \<Rightarrow> string" where
  "applyMasterEditsToSource sourceText ty entries =
     (case extractTrackedCallouts sourceText [ty] False noIds of
        (text, callouts) \<Rightarrow>
          joinLines (applyOps (sourceOps callouts entries) (splitLines text)))"

text \<open>
  The entries \<open>syncFromMaster\<close> hands to \<open>applyMasterEditsToSource\<close> for one source
  path: the master's chunks with that path, in document order.
\<close>

definition entriesFor :: "host \<Rightarrow> string \<Rightarrow> string \<Rightarrow> chunk list" where
  "entriesFor h masterText p = filter (\<lambda>c. sourcePath c = p) (snd (parseMasterChunks h masterText))"

text \<open>
  The last loop of \<open>rebuildAllMasters\<close> for one type, from the sorted entries
  (display, source path, block id, body lines) to the text handed to
  \<open>writeFileIfChanged\<close>.
\<close>

definition rebuildMasterText :: "(string \<times> string \<times> string \<times> string list) list \<Rightarrow> string" where
  "rebuildMasterText entries =
     ensureFinalLF (joinLines (concat (map (\<lambda>(d, p, b, body). buildMasterChunkLines d p b body) entries)))"

section \<open>Simultaneous replacement of line ranges\<close>

text \<open>
  The reference for the descending splices: every range of the original array replaced
  at once. The operations are taken in ascending order of \<open>start\<close>; \<open>pos\<close> is the
  index of the original array up to which the result has been produced.
\<close>

fun replaceRanges :: "nat \<Rightarrow> string list \<Rightarrow> op list \<Rightarrow> string list" where
  "replaceRanges pos lines [] = drop pos lines"
| "replaceRanges pos lines (p # ps) =
     take (opStart p - pos) (drop pos lines) @ opInsert p @ replaceRanges (opEnd p) lines ps"

text \<open>
  Non-overlapping operations against a line array: every range lies in the array, no
  two operations start at the same line, and an operation that starts before another
  ends no later than the other starts.
\<close>

definition nonOverlapping :: "string list \<Rightarrow> op list \<Rightarrow> bool" where
  "nonOverlapping lines ops \<longleftrightarrow>
     distinct (map opStart ops) \<and>
     (\<forall>p \<in> set ops. opStart p \<le> opEnd p \<and> opEnd p \<le> length lines) \<and>
     (\<forall>p \<in> set ops. \<forall>q \<in> set ops. opStart p < opStart q \<longrightarrow> opEnd p \<le> opStart q)"

text \<open>
  A descending chain below \<open>m\<close>: the order in which the operations are applied, each
  range ending no later than the previous one starts.
\<close>

fun descChain :: "nat \<Rightarrow> op list \<Rightarrow> bool" where
  "descChain m [] = True"
| "descChain m (p # ps) = (opStart p \<le> opEnd p \<and> opEnd p \<le> m \<and> descChain (opStart p) ps)"

text \<open>An example: three operations against five lines, given out of order.\<close>

definition exLines :: "string list" where
  "exLines = [''a'', ''b'', ''c'', ''d'', ''e'']"

definition exOps :: "op list" where
  "exOps = [\<lparr>opStart = 0, opEnd = 1, opInsert = [''x'', ''y'']\<rparr>,
            \<lparr>opStart = 3, opEnd = 5, opInsert = []\<rparr>,
            \<lparr>opStart = 2, opEnd = 2, opInsert = [''z'']\<rparr>]"

section \<open>Auxiliary notions for the parser\<close>

text \<open>A text with no CR LF pair, and a line with neither CR nor LF.\<close>

fun crlfFree :: "string \<Rightarrow> bool" where
  "crlfFree [] = True"
| "crlfFree (c # cs) = (\<not> (c = CR \<and> cs \<noteq> [] \<and> hd cs = LF) \<and> crlfFree cs)"

definition plain :: "string \<Rightarrow> bool" where
  "plain l \<longleftrightarrow> LF \<notin> set l \<and> CR \<notin> set l"

text \<open>
  A line that starts a tracked callout; the loop index after a callout; and callouts
  that follow each other in document order between index \<open>i\<close> and index \<open>m\<close>, each
  with \<open>startLine < quoteEndLine\<close> and its identifier line, if any, at or after
  \<open>quoteEndLine\<close>.
\<close>

definition isTrackedStart :: "string list \<Rightarrow> string \<Rightarrow> bool" where
  "isTrackedStart tt l \<longleftrightarrow> (case parseCalloutStart l of None \<Rightarrow> False | Some ty \<Rightarrow> ty \<in> set tt)"

definition nextIndex :: "callout \<Rightarrow> nat" where
  "nextIndex c = (case idLine c of None \<Rightarrow> quoteEndLine c | Some k \<Rightarrow> Suc k)"

definition idLineBelow :: "callout \<Rightarrow> bool" where
  "idLineBelow c \<longleftrightarrow> (case idLine c of None \<Rightarrow> True | Some k \<Rightarrow> quoteEndLine c \<le> k)"

fun orderedFrom :: "nat \<Rightarrow> nat \<Rightarrow> callout list \<Rightarrow> bool" where
  "orderedFrom i m [] = (i \<le> m)"
| "orderedFrom i m (c # cs) =
     (i \<le> startLine c \<and> startLine c < quoteEndLine c \<and> idLineBelow c \<and>
      orderedFrom (nextIndex c) m cs)"

text \<open>Example document: a tracked callout with its identifier.\<close>

definition docWithId :: string where
  "docWithId = ''intro'' @ [LF] @ ''> [!todo] Title'' @ [LF] @ ''> - [ ] buy milk'' @ [LF, LF] @ ''^abc12345'' @ [LF]"

section \<open>Auxiliary notions for the master\<close>

text \<open>
  Chunks that follow each other in document order between index \<open>i\<close> and index \<open>m\<close>,
  each with \<open>start < end\<close>; and the operation \<open>updateMasterForSourceFile\<close> pushes
  for one existing chunk.
\<close>

fun orderedChunks :: "nat \<Rightarrow> nat \<Rightarrow> chunk list \<Rightarrow> bool" where
  "orderedChunks i m [] = (i \<le> m)"
| "orderedChunks i m (c # cs) = (i \<le> chStart c \<and> chStart c < chEnd c \<and> orderedChunks (chEnd c) m cs)"

definition chunkOp :: "fileRef \<Rightarrow> callout list \<Rightarrow> chunk \<Rightarrow> op" where
  "chunkOp sf cs ch = (case calloutsById cs (Some (chBlockId ch)) of
                 None \<Rightarrow> \<lparr>opStart = chStart ch, opEnd = chEnd ch, opInsert = []\<rparr>
               | Some d \<Rightarrow> \<lparr>opStart = chStart ch, opEnd = chEnd ch, opInsert = chunkFor sf d\<rparr>)"

text \<open>
  Examples: a host whose \<open>normalizePath\<close> and \<open>decodeURI\<close> leave their argument as it
  is (as the real ones do on \<open>Note.md\<close>), a source file, a master with two chunks of
  the same path and id and one chunk whose callout is gone.
\<close>

definition plainHost :: host where
  "plainHost = \<lparr>normalizePath = (\<lambda>p. p), decodeURI = Some\<rparr>"

definition noteFile :: fileRef where
  "noteFile = \<lparr>fpath = ''Note.md'', basename = ''Note''\<rparr>"

definition dupMaster :: string where
  "dupMaster = ''[Note](Note.md#^abc)'' @ [LF] @ ''x'' @ [LF, LF] @
               ''[Note](Note.md#^abc)'' @ [LF] @ ''y'' @ [LF, LF] @
               ''[Note](Note.md#^gone)'' @ [LF] @ ''w'' @ [LF]"

section \<open>Auxiliary notions for the edits from the master\<close>

text \<open>
  The operation \<open>applyMasterEditsToSource\<close> pushes for an entry and the callout found
  for it; a source with a three-line callout; and a master whose chunk for that
  callout has been edited.
\<close>

definition bodyOp :: "callout \<Rightarrow> chunk \<Rightarrow> op" where
  "bodyOp c e = \<lparr>opStart = startLine c + 1, opEnd = quoteEndLine c,
                 opInsert = quoteBodyLines (chBodyLines e)\<rparr>"

definition threeLineSource :: string where
  "threeLineSource = ''> [!todo]'' @ [LF] @ ''> a'' @ [LF] @ ''> b'' @ [LF] @ ''> c'' @ [LF, LF] @
                     ''^abc'' @ [LF] @ ''tail''"

definition editedMaster :: string where
  "editedMaster = ''[Note](Note.md#^abc)'' @ [LF] @ ''x'' @ [LF, LF] @
                  ''[Note](Note.md#^zzz)'' @ [LF] @ ''q'' @ [LF]"

section \<open>Auxiliary notions for re-parsing\<close>

text \<open>
  Operations that replace body spans of callouts by quoted lines, in ascending order;
  the body a callout has after them; the relation between a callout and its re-parsed
  copy; the identifier found below a blockquote; the lines between a blockquote and the
  next scan position; the identifiers a parse with insertion assigns; the blank line
  the parser inserts; and well-formed identifiers.
\<close>

definition bodySpanOps :: "callout list \<Rightarrow> op list \<Rightarrow> bool" where
  "bodySpanOps cs ops \<longleftrightarrow>
     sorted_wrt (\<lambda>a b. opStart a < opStart b) ops \<and>
     (\<forall>p \<in> set ops. list_all isQuoted (opInsert p) \<and>
        (\<exists>c \<in> set cs. opStart p = startLine c + 1 \<and> opEnd p = quoteEndLine c))"

definition newBody :: "op list \<Rightarrow> callout \<Rightarrow> string list" where
  "newBody ops c =
     (case find (\<lambda>p. opStart p = startLine c + 1) ops of
        None \<Rightarrow> bodyLines c
      | Some p \<Rightarrow> trimTrailingBlankLines (map unquoteLine (opInsert p)))"

definition sameCallout :: "op list \<Rightarrow> callout \<Rightarrow> callout \<Rightarrow> bool" where
  "sameCallout ops c' c \<longleftrightarrow>
     ctype c' = ctype c \<and> blockId c' = blockId c \<and> bodyLines c' = newBody ops c"

definition foundId :: "string list \<Rightarrow> string option" where
  "foundId a = (case dropWhile isBlank a of [] \<Rightarrow> None | x # _ \<Rightarrow> parseBlockId x)"

definition leadOk :: "string list \<Rightarrow> string option \<Rightarrow> string list \<Rightarrow> bool" where
  "leadOk lead fo X \<longleftrightarrow>
     (\<exists>blanks x b. lead = blanks @ [x] \<and> list_all isBlank blanks \<and> parseBlockId x = Some b \<and>
                   fo = Some b) \<or>
     (lead = [] \<and> fo = None \<and> (X = [] \<or> \<not> isQuoted (hd X)) \<and> foundId X = None)"

fun assignIds :: "(nat \<Rightarrow> string) \<Rightarrow> nat \<Rightarrow> string option list \<Rightarrow> string option list" where
  "assignIds gen n [] = []"
| "assignIds gen n (None # bs) = Some (gen n) # assignIds gen (n + 1) bs"
| "assignIds gen n (Some b # bs) = Some b # assignIds gen n bs"

definition blankIfNeeded :: "string list \<Rightarrow> string list" where
  "blankIfNeeded a = (if a = [] \<or> \<not> isBlank (hd a) then [[]] else [])"

definition validId :: "string \<Rightarrow> bool" where
  "validId s \<longleftrightarrow> s \<noteq> [] \<and> list_all isIdChar s"

text \<open>A generator that always returns the same well-formed identifier.\<close>

definition fixedIds :: "nat \<Rightarrow> string" where
  "fixedIds n = ''abc12345''"

text \<open>
  The master document as blocks. A block is a link line with the lines below it up to
  the next link line; the lines of a master are a link-free prefix followed by blocks,
  and \<open>parseMasterChunks\<close> returns one chunk per block. \<open>newBlock\<close> is what
  \<open>updateMasterForSourceFile\<close> puts in the place of a block, \<open>passLines\<close> the line
  array it joins. \<open>wellLinked\<close> collects the conditions on the callouts of a source
  file under which their chunks are read back as they were written.
\<close>

definition linkFree :: "host \<Rightarrow> string list \<Rightarrow> bool" where
  "linkFree h xs \<longleftrightarrow> (\<forall>x \<in> set xs. \<not> isLink h x)"

definition wfBlock :: "host \<Rightarrow> string list \<Rightarrow> bool" where
  "wfBlock h B \<longleftrightarrow> B \<noteq> [] \<and> isLink h (hd B) \<and> linkFree h (tl B)"

definition headOf :: "host \<Rightarrow> string list \<Rightarrow> linkHead" where
  "headOf h B = the (parseMasterLinkLine h (hd B))"

fun chunksOfBlocks :: "host \<Rightarrow> nat \<Rightarrow> string list list \<Rightarrow> chunk list" where
  "chunksOfBlocks h i [] = []"
| "chunksOfBlocks h i (B # Bs) =
     \<lparr>chStart = i, chEnd = i + length B, display = hDisplay (headOf h B),
       sourcePath = hPath (headOf h B), chBlockId = hBlockId (headOf h B),
       chBodyLines = trimTrailingBlankLines (tl B)\<rparr>
     # chunksOfBlocks h (i + length B) Bs"

definition newBlock :: "host \<Rightarrow> fileRef \<Rightarrow> callout list \<Rightarrow> string list \<Rightarrow> string list" where
  "newBlock h sf cs B =
     (if hPath (headOf h B) = fpath sf then
        (case calloutsById cs (Some (hBlockId (headOf h B))) of
           None \<Rightarrow> []
         | Some d \<Rightarrow> chunkFor sf d)
      else B)"

definition blockIdOf :: "host \<Rightarrow> string list \<Rightarrow> string" where
  "blockIdOf h B = hBlockId (headOf h B)"

definition isOwn :: "host \<Rightarrow> fileRef \<Rightarrow> string list \<Rightarrow> bool" where
  "isOwn h sf B \<longleftrightarrow> hPath (headOf h B) = fpath sf"

definition passLines :: "host \<Rightarrow> fileRef \<Rightarrow> callout list \<Rightarrow> string list \<Rightarrow> string list list \<Rightarrow> string list" where
  "passLines h sf cs pre Bs =
     (let L1 = pre @ concat (map (newBlock h sf cs) Bs);
          A = concat (map (chunkFor sf)
                (filter (\<lambda>d. blockId d \<notin> Some ` blockIdOf h ` set (filter (isOwn h sf) Bs)) cs))
      in if A \<noteq> [] then (if L1 \<noteq> [] \<and> \<not> isBlank (last L1) then L1 @ [[]] else L1) @ A
         else L1)"

definition linkRoundTrip :: "host \<Rightarrow> fileRef \<Rightarrow> string \<Rightarrow> bool" where
  "linkRoundTrip h sf b \<longleftrightarrow>
     plain (linkLine (basename sf) (fpath sf) b) \<and>
     map_option (\<lambda>hd. (hPath hd, hBlockId hd))
       (parseMasterLinkLine h (linkLine (basename sf) (fpath sf) b)) = Some (fpath sf, b)"

definition wellLinked :: "host \<Rightarrow> fileRef \<Rightarrow> callout list \<Rightarrow> bool" where
  "wellLinked h sf cs \<longleftrightarrow>
     distinct (map blockId cs) \<and>
     (\<forall>c \<in> set cs.
        (case blockId c of None \<Rightarrow> False | Some b \<Rightarrow> linkRoundTrip h sf b) \<and>
        (\<forall>l \<in> set (bodyLines c). plain l \<and> \<not> isLink h l))"

definition kept :: "host \<Rightarrow> fileRef \<Rightarrow> callout list \<Rightarrow> string list list \<Rightarrow> callout list" where
  "kept h sf cs Bs =
     concat (map (\<lambda>B. if isOwn h sf B then
                         (case calloutsById cs (Some (blockIdOf h B)) of
                            None \<Rightarrow> [] | Some d \<Rightarrow> [d])
                       else []) Bs)"

definition settledBlocks ::
  "host \<Rightarrow> fileRef \<Rightarrow> callout list \<Rightarrow> callout list \<Rightarrow> string list list \<Rightarrow> bool" where
  "settledBlocks h sf cs ks Bs \<longleftrightarrow>
     (\<forall>B \<in> set Bs. wfBlock h B \<and> (\<forall>l \<in> set B. plain l)) \<and>
     filter (isOwn h sf) Bs = map (chunkFor sf) ks \<and> set ks \<subseteq> set cs"

definition masterForm ::
  "host \<Rightarrow> fileRef \<Rightarrow> callout list \<Rightarrow> callout list \<Rightarrow> string list \<Rightarrow> string list list \<Rightarrow> bool" where
  "masterForm h sf cs ks pre Bs \<longleftrightarrow>
     linkFree h pre \<and> (\<forall>l \<in> set pre. plain l) \<and> settledBlocks h sf cs ks Bs"

definition newCallouts :: "host \<Rightarrow> fileRef \<Rightarrow> callout list \<Rightarrow> string list list \<Rightarrow> callout list" where
  "newCallouts h sf cs Bs =
     filter (\<lambda>d. blockId d \<notin> Some ` blockIdOf h ` set (filter (isOwn h sf) Bs)) cs"

text \<open>Examples: a master with a stale chunk and a chunk whose callout is gone, the two
  callouts of the source, and a source whose callout body is a link line.\<close>

definition staleMaster :: string where
  "staleMaster = ''Todos'' @ [LF] @ ''[Other](Other.md#^q1)'' @ [LF] @ ''keep'' @ [LF] @
                 ''[Note](Note.md#^abc)'' @ [LF] @ ''old'' @ [LF, LF] @
                 ''[Note](Note.md#^gone)'' @ [LF] @ ''bye''"

definition twoCallouts :: "callout list" where
  "twoCallouts = [\<lparr>ctype = ''todo'', blockId = Some ''abc'', bodyLines = [''a'', ''b''],
                   startLine = 0, quoteEndLine = 3, idLine = Some 4\<rparr>,
                  \<lparr>ctype = ''todo'', blockId = Some ''def'', bodyLines = [''c''],
                   startLine = 6, quoteEndLine = 8, idLine = Some 9\<rparr>]"

definition linkBodySource :: string where
  "linkBodySource = ''> [!todo]'' @ [LF] @ ''> [x](y#^z)'' @ [LF, LF] @ ''^abc'' @ [LF]"

text \<open>
  The callouts of one type, as \<open>syncFromSource\<close> groups them before it calls
  \<open>updateMasterForSourceFile\<close>; a generator of pairwise distinct identifiers; a source
  with callouts of two types, one of them without identifier; and a source whose callout
  has a link line in its body.
\<close>

definition calloutsOfType :: "string \<Rightarrow> callout list \<Rightarrow> callout list" where
  "calloutsOfType ty cs = filter (\<lambda>c. ctype c = ty) cs"

definition numberedIds :: "nat \<Rightarrow> string" where
  "numberedIds n = ''new'' @ replicate n (CHR ''0'')"

definition twoTypeSource :: string where
  "twoTypeSource = ''> [!todo]'' @ [LF] @ ''> a'' @ [LF] @ ''> b'' @ [LF, LF] @ ''^abc'' @ [LF, LF] @
                   ''> [!questions]'' @ [LF] @ ''> why'' @ [LF, LF] @
                   ''> [!todo]'' @ [LF] @ ''>c''"

definition linkInBodySource :: string where
  "linkInBodySource = ''> [!todo]'' @ [LF] @ ''> see'' @ [LF] @ ''> [x](y#^z)'' @ [LF, LF] @ ''^abc'' @ [LF]"

text \<open>
  Examples: a note whose second callout has no identifier line, and a note with two
  callouts where a body line of the first is a link to the second.
\<close>

definition secondNoIdNote :: string where
  "secondNoIdNote = ''> [!todo]'' @ [LF] @ ''> a'' @ [LF, LF] @ ''^abc'' @ [LF, LF] @
                    ''> [!todo]'' @ [LF] @ ''> b'' @ [LF] @ ''after''"

definition selfLinkNote :: string where
  "selfLinkNote = ''> [!todo]'' @ [LF] @ ''> a'' @ [LF] @ ''> [see](Note.md#^def)'' @ [LF, LF] @
                  ''^abc'' @ [LF, LF] @
                  ''> [!todo]'' @ [LF] @ ''> b'' @ [LF] @ ''> c'' @ [LF, LF] @
                  ''^def'' @ [LF] @ ''tail''"

section \<open>Scenarios\<close>

text \<open>
  C8, as the code has it: the master rebuilt from the single entry of Scenario B, with
  display \<open>Shopping\<close>, path \<open>Shopping.md\<close>, id \<open>abc12345\<close> and body
  \<open>["- [ ] buy milk"]\<close>, is the link line, the body line and one final line feed; it
  differs from the empty master, so it is written.
\<close>

theorem scenarioB_rebuilt_master:
  "writeFileIfChanged []
     (rebuildMasterText [(''Shopping'', ''Shopping.md'', ''abc12345'', [''- [ ] buy milk''])])
   = (''[Shopping](Shopping.md#^abc12345)'' @ [LF] @ ''- [ ] buy milk'' @ [LF], True)"
  by code_simp

text \<open>
  C8, as the claim has it: the rebuilt master is not the text that ends in two line
  feeds.
\<close>

theorem scenarioB_not_two_line_feeds:
  "rebuildMasterText [(''Shopping'', ''Shopping.md'', ''abc12345'', [''- [ ] buy milk''])]
   \<noteq> ''[Shopping](Shopping.md#^abc12345)'' @ [LF] @ ''- [ ] buy milk'' @ [LF, LF]"
  by code_simp

text \<open>
  C6, the code at the input of Scenario A: the text \<open>> [!todo]\n> - [ ] buy milk\n\<close>
  with tracked type \<open>todo\<close> and identifiers inserted. The identifier line is spliced in
  directly below the body line: the text gains the identifier line only, with no blank
  line above it.
\<close>

theorem scenarioA_identifier_directly_below_body:
  "extractTrackedCallouts (''> [!todo]'' @ [LF] @ ''> - [ ] buy milk'' @ [LF]) [''todo''] True gen
   = (''> [!todo]'' @ [LF] @ ''> - [ ] buy milk'' @ [LF] @ ''^'' @ gen 0 @ [LF],
      [\<lparr>ctype = ''todo'', blockId = Some (gen 0), bodyLines = [''- [ ] buy milk''],
        startLine = 0, quoteEndLine = 2, idLine = Some 2\<rparr>])"
  by code_simp

section \<open>Index safety of the descending splices\<close>

lemma replaceRanges_snoc:
  "\<forall>p \<in> set ps. opStart p \<le> opStart a \<and> opEnd p \<le> opStart a \<Longrightarrow>
   replaceRanges pos lines (ps @ [a]) =
   replaceRanges pos (take (opStart a) lines) ps @ opInsert a @ drop (opEnd a) lines"
proof (induction ps arbitrary: pos)
  case Nil
  show ?case by (simp add: drop_take)
next
  case (Cons p ps)
  have "opStart p \<le> opStart a" using Cons.prems by simp
  then have "take (opStart p - pos) (drop pos (take (opStart a) lines)) = take (opStart p - pos) (drop pos lines)"
    by (simp add: drop_take min_def)
  then show ?case using Cons by simp
qed

lemma descChain_bounds:
  "descChain m ps \<Longrightarrow> p \<in> set ps \<Longrightarrow> opStart p \<le> m \<and> opEnd p \<le> m"
  by (induction m ps rule: descChain.induct) (auto intro: order_trans)

lemma descChain_mono: "descChain m ps \<Longrightarrow> m \<le> k \<Longrightarrow> descChain k ps"
  by (cases ps) auto

lemma fold_applyOp_descChain:
  "descChain (length xs) ds \<Longrightarrow>
   fold applyOp ds (xs @ ys) = replaceRanges 0 xs (rev ds) @ ys"
proof (induction ds arbitrary: xs ys)
  case Nil
  show ?case by simp
next
  case (Cons a ds)
  from Cons.prems have a: "opStart a \<le> opEnd a" "opEnd a \<le> length xs" and ch: "descChain (opStart a) ds"
    by simp_all
  have len: "length (take (opStart a) xs) = opStart a" using a by simp
  have app: "applyOp a (xs @ ys) = take (opStart a) xs @ (opInsert a @ drop (opEnd a) xs @ ys)"
    using a by (simp add: applyOp_def splice_def)
  have "fold applyOp ds (take (opStart a) xs @ (opInsert a @ drop (opEnd a) xs @ ys))
        = replaceRanges 0 (take (opStart a) xs) (rev ds) @ (opInsert a @ drop (opEnd a) xs @ ys)"
    using Cons.IH [of "take (opStart a) xs"] ch len by simp
  moreover have "replaceRanges 0 xs (rev ds @ [a]) =
      replaceRanges 0 (take (opStart a) xs) (rev ds) @ opInsert a @ drop (opEnd a) xs"
    using descChain_bounds [OF ch] by (intro replaceRanges_snoc) simp
  ultimately show ?case using app by simp
qed

lemma take_applyOp_above:
  "m \<le> length xs \<Longrightarrow> m \<le> opStart p \<Longrightarrow>
   take m (applyOp p xs) = take m xs \<and> m \<le> length (applyOp p xs)"
  by (simp add: applyOp_def splice_def min_def)

lemma take_fold_applyOp_above:
  "m \<le> length xs \<Longrightarrow> \<forall>p \<in> set ps. m \<le> opStart p \<Longrightarrow>
   take m (fold applyOp ps xs) = take m xs"
proof (induction ps arbitrary: xs)
  case Nil
  show ?case by simp
next
  case (Cons p ps)
  then show ?case using take_applyOp_above [of m xs p] by simp
qed

lemma sortOps_set: "set (sortOps ops) = set ops"
  by (simp add: sortOps_def)

lemma sortOps_distinct: "distinct (map opStart ops) \<Longrightarrow> distinct (map opStart (sortOps ops))"
  by (simp add: sortOps_def distinct_map)

lemma sortOps_sorted: "sorted (map (\<lambda>p. - int (opStart p)) (sortOps ops))"
  by (simp add: sortOps_def)

lemma descChain_sorted:
  assumes "distinct (map opStart ds)" "sorted (map (\<lambda>p. - int (opStart p)) ds)"
    "\<forall>p \<in> set ds. opStart p \<le> opEnd p \<and> opEnd p \<le> m"
    "\<forall>p \<in> set ds. \<forall>q \<in> set ds. opStart p < opStart q \<longrightarrow> opEnd p \<le> opStart q"
  shows "descChain m ds"
  using assms
proof (induction ds arbitrary: m)
  case Nil
  show ?case by simp
next
  case (Cons a ds)
  have "\<forall>p \<in> set ds. opStart p < opStart a"
  proof
    fix p assume p: "p \<in> set ds"
    then have "opStart p \<le> opStart a" using Cons.prems(2) by auto
    moreover have "opStart a \<notin> opStart ` set ds" using Cons.prems(1) by simp
    then have "opStart p \<noteq> opStart a" using p by (metis imageI)
    ultimately show "opStart p < opStart a" by simp
  qed
  then have "\<forall>p \<in> set ds. opStart p \<le> opEnd p \<and> opEnd p \<le> opStart a"
    using Cons.prems(3,4) by auto
  then have "descChain (opStart a) ds"
    using Cons.prems by (intro Cons.IH) auto
  then show ?case using Cons.prems(3) by simp
qed

lemma nonOverlapping_descChain:
  "nonOverlapping lines ops \<Longrightarrow> descChain (length lines) (sortOps ops)"
  unfolding nonOverlapping_def
  by (intro descChain_sorted sortOps_distinct sortOps_sorted) (simp_all add: sortOps_set)

lemma descChain_append_below:
  "descChain m (as @ bs) \<Longrightarrow> p \<in> set as \<Longrightarrow> q \<in> set bs \<Longrightarrow> opEnd q \<le> opStart p"
proof (induction as arbitrary: m)
  case Nil
  then show ?case by simp
next
  case (Cons a as)
  from Cons.prems(1) have ch: "descChain (opStart a) (as @ bs)" by simp
  show ?case
  proof (cases "p = a")
    case True
    then show ?thesis using descChain_bounds [OF ch, of q] Cons.prems(3) by simp
  next
    case False
    then show ?thesis using Cons.IH [OF ch] Cons.prems by simp
  qed
qed

text \<open>
  C3: for non-overlapping operations against a line array, the splices in descending
  order of \<open>start\<close> give the simultaneous replacement of all the ranges, and at every
  moment the lines up to the end of each operation not yet applied are still those of
  the original array, so no pending range has moved.
\<close>

theorem index_safety:
  assumes "nonOverlapping lines ops"
  shows "applyOps ops lines = replaceRanges 0 lines (rev (sortOps ops)) \<and>
         (\<forall>k \<le> length ops. \<forall>q \<in> set (drop k (sortOps ops)).
            take (opEnd q) (fold applyOp (take k (sortOps ops)) lines) = take (opEnd q) lines)"
proof
  have ch: "descChain (length lines) (sortOps ops)"
    using assms by (rule nonOverlapping_descChain)
  show "applyOps ops lines = replaceRanges 0 lines (rev (sortOps ops))"
    using fold_applyOp_descChain [OF ch, of "[]"] by (simp add: applyOps_def)
  show "\<forall>k \<le> length ops. \<forall>q \<in> set (drop k (sortOps ops)).
            take (opEnd q) (fold applyOp (take k (sortOps ops)) lines) = take (opEnd q) lines"
  proof (intro allI impI ballI)
    fix k q
    assume q: "q \<in> set (drop k (sortOps ops))"
    have ch': "descChain (length lines) (take k (sortOps ops) @ drop k (sortOps ops))"
      using ch by simp
    have "opEnd q \<le> length lines"
      using descChain_bounds [OF ch, of q] q in_set_dropD by fastforce
    moreover have "\<forall>p \<in> set (take k (sortOps ops)). opEnd q \<le> opStart p"
      using descChain_append_below [OF ch' _ q] by blast
    ultimately show "take (opEnd q) (fold applyOp (take k (sortOps ops)) lines) = take (opEnd q) lines"
      by (rule take_fold_applyOp_above)
  qed
qed

lemma exOps_nonOverlapping: "nonOverlapping exLines exOps"
  by (simp add: nonOverlapping_def exLines_def exOps_def)

theorem index_safety_witness:
  "nonOverlapping exLines exOps \<and>
   applyOps exOps exLines = [''x'', ''y'', ''b'', ''z'', ''c''] \<and>
   replaceRanges 0 exLines (rev (sortOps exOps)) = [''x'', ''y'', ''b'', ''z'', ''c'']"
  using index_safety [OF exOps_nonOverlapping] exOps_nonOverlapping
  by (simp add: exLines_def exOps_def sortOps_def)

section \<open>Splitting and joining lines\<close>

lemma splitLines_nonempty [simp]: "splitLines t \<noteq> []"
  by (induction t rule: splitLines.induct) (auto split: list.splits)

lemma joinLines_Cons: "ls \<noteq> [] \<Longrightarrow> joinLines (l # ls) = l @ LF # joinLines ls"
  by (cases ls) simp_all

lemma join_split: "crlfFree t \<Longrightarrow> joinLines (splitLines t) = t"
proof (induction t rule: splitLines.induct)
  case 1
  show ?case by simp
next
  case (2 c cs)
  show ?case
  proof (cases "c = LF")
    case True
    then show ?thesis using 2 by (simp add: joinLines_Cons)
  next
    case False
    then have nosep: "\<not> (c = CR \<and> cs \<noteq> [] \<and> hd cs = LF)" using "2.prems" by simp
    obtain l ls where sp: "splitLines cs = l # ls"
      by (cases "splitLines cs") simp_all
    have "joinLines (splitLines cs) = cs" using 2 False nosep by simp
    then have "joinLines ((c # l) # ls) = c # cs"
      using sp by (cases ls) simp_all
    moreover have "splitLines (c # cs) = (c # l) # ls"
      using False nosep sp by auto
    ultimately show ?thesis by simp
  qed
qed

lemma splitLines_no_LF: "l \<in> set (splitLines t) \<Longrightarrow> LF \<notin> set l"
proof (induction t arbitrary: l rule: splitLines.induct)
  case 1
  then show ?case by simp
next
  case (2 c cs)
  then show ?case
    by (auto split: if_splits list.splits)
qed

lemma splitLines_no_CR: "CR \<notin> set t \<Longrightarrow> l \<in> set (splitLines t) \<Longrightarrow> CR \<notin> set l"
proof (induction t arbitrary: l rule: splitLines.induct)
  case 1
  then show ?case by simp
next
  case (2 c cs)
  then show ?case
    by (auto split: if_splits list.splits)
qed

lemma splitLines_plain: "CR \<notin> set t \<Longrightarrow> l \<in> set (splitLines t) \<Longrightarrow> plain l"
  by (simp add: plain_def splitLines_no_LF splitLines_no_CR)

lemma splitLines_plain_append:
  "plain l \<Longrightarrow> splitLines (l @ LF # t) = l # splitLines t"
  by (induction l) (auto simp: plain_def LF_def CR_def split: list.splits)

lemma splitLines_plain_single: "plain l \<Longrightarrow> splitLines l = [l]"
  by (induction l) (auto simp: plain_def LF_def CR_def split: list.splits)

lemma split_join: "ls \<noteq> [] \<Longrightarrow> \<forall>l \<in> set ls. plain l \<Longrightarrow> splitLines (joinLines ls) = ls"
proof (induction ls rule: joinLines.induct)
  case 1
  then show ?case by simp
next
  case (2 l)
  then show ?case by (simp add: splitLines_plain_single)
next
  case (3 l m ls)
  then show ?case by (simp add: splitLines_plain_append)
qed

lemma CR_free_crlfFree: "CR \<notin> set t \<Longrightarrow> crlfFree t"
  by (induction t) auto

section \<open>Invariants of the callout scan\<close>

lemma scanCallouts_Cons:
  "calloutStep tt a gen n i l rest = (emit, co, n', i', rest') \<Longrightarrow>
   scanCallouts tt a gen n i (l # rest) =
     (emit @ fst (scanCallouts tt a gen n' i' rest'),
      (case co of None \<Rightarrow> [] | Some c \<Rightarrow> [c]) @ snd (scanCallouts tt a gen n' i' rest'))"
  by (simp split: prod.splits option.splits)

lemma calloutStep_untracked:
  "\<not> isTrackedStart tt l \<Longrightarrow> calloutStep tt a gen n i l rest = ([l], None, n, i + 1, rest)"
  by (simp add: isTrackedStart_def calloutStep_def split: option.splits)

lemma found_tail_nonempty:
  "(case tail of [] \<Rightarrow> None | x # _ \<Rightarrow> parseBlockId x) = Some b \<Longrightarrow> tail \<noteq> []"
  by (cases tail) simp_all

lemma calloutStep_False:
  assumes "calloutStep tt False gen n i l rest = (emit, co, n', i', rest')"
  shows "emit @ rest' = l # rest \<and> i' = i + length emit \<and> n' = n"
proof (cases "isTrackedStart tt l")
  case False
  then show ?thesis using assms by (auto simp: calloutStep_untracked)
next
  case True
  then obtain ty where ty: "parseCalloutStart l = Some ty" "ty \<in> set tt"
    by (auto simp: isTrackedStart_def split: option.splits)
  let ?after = "dropWhile isQuoted rest"
  let ?tail = "dropWhile isBlank ?after"
  have rest: "rest = takeWhile isQuoted rest @ takeWhile isBlank ?after @ ?tail"
    by simp
  show ?thesis
  proof (cases "case ?tail of [] \<Rightarrow> None | x # _ \<Rightarrow> parseBlockId x")
    case None
    then show ?thesis using assms ty
      by (auto simp: calloutStep_def Let_def)
  next
    case (Some b)
    then have "?tail \<noteq> []" by (rule found_tail_nonempty)
    then have "[hd ?tail] @ tl ?tail = ?tail" by simp
    then have "takeWhile isQuoted rest @ takeWhile isBlank ?after @ [hd ?tail] @ tl ?tail = rest"
      using rest by simp
    then show ?thesis using assms ty Some
      by (auto simp: calloutStep_def Let_def)
  qed
qed

lemma scan_False_lines: "fst (scanCallouts tt False gen n i ls) = ls"
proof (induction "scanMeasure ls" arbitrary: ls n i rule: less_induct)
  case less
  show ?case
  proof (cases ls)
    case Nil
    then show ?thesis by simp
  next
    case (Cons l rest)
    obtain emit co n' i' rest' where st: "calloutStep tt False gen n i l rest = (emit, co, n', i', rest')"
      by (metis prod_cases5)
    have "scanMeasure rest' < scanMeasure ls"
      using calloutStep_decreases [OF st] Cons by simp
    then have "fst (scanCallouts tt False gen n' i' rest') = rest'"
      by (rule less.hyps)
    then show ?thesis
      using scanCallouts_Cons [OF st] calloutStep_False [OF st] Cons by simp
  qed
qed

lemma orderedFrom_mono: "orderedFrom i m cs \<Longrightarrow> j \<le> i \<Longrightarrow> orderedFrom j m cs"
  by (cases cs) auto

lemma calloutStep_shape:
  assumes "calloutStep tt a gen n i l rest = (emit, co, n', i', rest')"
  shows "i' = i + length emit \<and> emit \<noteq> [] \<and>
         (\<forall>c. co = Some c \<longrightarrow>
            startLine c = i \<and> quoteEndLine c = i + 1 + length (takeWhile isQuoted rest) \<and>
            idLineBelow c \<and> i' = nextIndex c)"
  using assms
  by (auto simp: calloutStep_def Let_def nextIndex_def idLineBelow_def split: option.splits if_splits)

lemma scan_ordered:
  "orderedFrom i (i + length (fst (scanCallouts tt a gen n i ls))) (snd (scanCallouts tt a gen n i ls))"
proof (induction "scanMeasure ls" arbitrary: ls n i rule: less_induct)
  case less
  show ?case
  proof (cases ls)
    case Nil
    then show ?thesis by simp
  next
    case (Cons l rest)
    obtain emit co n' i' rest' where st: "calloutStep tt a gen n i l rest = (emit, co, n', i', rest')"
      by (metis prod_cases5)
    have "scanMeasure rest' < scanMeasure ls"
      using calloutStep_decreases [OF st] Cons by simp
    then have ih: "orderedFrom i' (i' + length (fst (scanCallouts tt a gen n' i' rest')))
                     (snd (scanCallouts tt a gen n' i' rest'))"
      by (rule less.hyps)
    have sh: "i' = i + length emit" "emit \<noteq> []"
      using calloutStep_shape [OF st] by simp_all
    show ?thesis
    proof (cases co)
      case None
      have "orderedFrom i (i' + length (fst (scanCallouts tt a gen n' i' rest')))
                     (snd (scanCallouts tt a gen n' i' rest'))"
        using ih sh by (intro orderedFrom_mono [OF ih]) simp
      then show ?thesis
        using scanCallouts_Cons [OF st] Cons None sh by (simp add: add.assoc)
    next
      case (Some c)
      then show ?thesis
        using scanCallouts_Cons [OF st] Cons ih sh calloutStep_shape [OF st]
        by (auto simp: add.assoc)
    qed
  qed
qed

lemma idLineBelow_nextIndex: "idLineBelow c \<Longrightarrow> quoteEndLine c \<le> nextIndex c"
  by (simp add: idLineBelow_def nextIndex_def split: option.splits)

lemma orderedFrom_le: "orderedFrom j m cs \<Longrightarrow> j \<le> m"
proof (induction cs arbitrary: j)
  case Nil
  then show ?case by simp
next
  case (Cons c cs)
  then have "nextIndex c \<le> m" by simp
  then show ?case using Cons.prems idLineBelow_nextIndex [of c] by simp
qed

lemma orderedFrom_bounds:
  "orderedFrom i m cs \<Longrightarrow> c \<in> set cs \<Longrightarrow>
   i \<le> startLine c \<and> startLine c < quoteEndLine c \<and> quoteEndLine c \<le> nextIndex c \<and>
   nextIndex c \<le> m \<and> idLineBelow c"
proof (induction cs arbitrary: i)
  case Nil
  then show ?case by simp
next
  case (Cons d cs)
  show ?case
  proof (cases "c = d")
    case True
    then show ?thesis
      using Cons.prems orderedFrom_le [of "nextIndex d" m cs] idLineBelow_nextIndex [of d] by simp
  next
    case False
    then have "c \<in> set cs" and "orderedFrom (nextIndex d) m cs"
      using Cons.prems by simp_all
    then have "nextIndex d \<le> startLine c \<and> startLine c < quoteEndLine c \<and>
               quoteEndLine c \<le> nextIndex c \<and> nextIndex c \<le> m \<and> idLineBelow c"
      using Cons.IH [of "nextIndex d"] by simp
    then show ?thesis using Cons.prems idLineBelow_nextIndex [of d] by simp
  qed
qed

lemma orderedFrom_sorted:
  "orderedFrom i m cs \<Longrightarrow> sorted_wrt (\<lambda>a b. nextIndex a \<le> startLine b) cs"
proof (induction cs arbitrary: i)
  case Nil
  then show ?case by simp
next
  case (Cons d cs)
  then show ?case
    using orderedFrom_bounds [of "nextIndex d" m cs] by auto
qed

lemma scan_skip_prefix:
  "\<forall>x \<in> set pre. \<not> isTrackedStart tt x \<Longrightarrow>
   scanCallouts tt a gen n i (pre @ ls) =
     (pre @ fst (scanCallouts tt a gen n (i + length pre) ls),
      snd (scanCallouts tt a gen n (i + length pre) ls))"
proof (induction pre arbitrary: i)
  case Nil
  show ?case by simp
next
  case (Cons x pre)
  then show ?case
    using scanCallouts_Cons [OF calloutStep_untracked, of tt x a gen n i "pre @ ls"]
    by simp
qed

lemma calloutStep_has_id:
  assumes "calloutStep tt False gen' n i l rest = (emit, co, n', i', rest')"
    and "\<forall>c. co = Some c \<longrightarrow> blockId c \<noteq> None"
  shows "calloutStep tt True gen n i l rest = (emit, co, n', i', rest')"
  using assms
  by (auto simp: calloutStep_def Let_def split: option.splits if_splits)

lemma scan_all_have_ids:
  "\<forall>c \<in> set (snd (scanCallouts tt False gen' n i ls)). blockId c \<noteq> None \<Longrightarrow>
   scanCallouts tt True gen n i ls = scanCallouts tt False gen' n i ls"
proof (induction "scanMeasure ls" arbitrary: ls n i rule: less_induct)
  case less
  show ?case
  proof (cases ls)
    case Nil
    then show ?thesis by simp
  next
    case (Cons l rest)
    obtain emit co n' i' rest' where st: "calloutStep tt False gen' n i l rest = (emit, co, n', i', rest')"
      by (metis prod_cases5)
    have sc: "scanCallouts tt False gen' n i ls =
       (emit @ fst (scanCallouts tt False gen' n' i' rest'),
        (case co of None \<Rightarrow> [] | Some c \<Rightarrow> [c]) @ snd (scanCallouts tt False gen' n' i' rest'))"
      using scanCallouts_Cons [OF st] Cons by simp
    have ids: "\<forall>c. co = Some c \<longrightarrow> blockId c \<noteq> None"
      and rest: "\<forall>c \<in> set (snd (scanCallouts tt False gen' n' i' rest')). blockId c \<noteq> None"
      using less.prems sc by auto
    have st': "calloutStep tt True gen n i l rest = (emit, co, n', i', rest')"
      using st ids by (rule calloutStep_has_id)
    have "scanMeasure rest' < scanMeasure ls"
      using calloutStep_decreases [OF st] Cons by simp
    then have "scanCallouts tt True gen n' i' rest' = scanCallouts tt False gen' n' i' rest'"
      using rest by (rule less.hyps)
    then show ?thesis
      using scanCallouts_Cons [OF st'] sc Cons by simp
  qed
qed

section \<open>Guarantees of the callout parser\<close>

lemma calloutsById_Some:
  "calloutsById cs k = Some c \<Longrightarrow> c \<in> set cs \<and> blockId c = k"
  by (auto simp: calloutsById_def dest!: map_of_SomeD)

lemma sourceOps_member:
  assumes "p \<in> set (sourceOps cs entries)"
  shows "\<exists>e \<in> set entries. \<exists>c \<in> set cs. blockId c = Some (chBlockId e) \<and>
      calloutsById cs (Some (chBlockId e)) = Some c \<and>
      p = \<lparr>opStart = startLine c + 1, opEnd = quoteEndLine c,
           opInsert = quoteBodyLines (chBodyLines e)\<rparr>"
proof -
  from assms obtain e where e: "e \<in> set entries"
    and p: "p \<in> set (case calloutsById cs (Some (chBlockId e)) of
                        None \<Rightarrow> []
                      | Some c \<Rightarrow> [\<lparr>opStart = startLine c + 1, opEnd = quoteEndLine c,
                                    opInsert = quoteBodyLines (chBodyLines e)\<rparr>])"
    by (auto simp: sourceOps_def)
  then obtain c where c: "calloutsById cs (Some (chBlockId e)) = Some c"
    by (cases "calloutsById cs (Some (chBlockId e))") auto
  with p have "p = \<lparr>opStart = startLine c + 1, opEnd = quoteEndLine c,
                    opInsert = quoteBodyLines (chBodyLines e)\<rparr>"
    by simp
  then show ?thesis using e c calloutsById_Some [OF c] by blast
qed

lemma extract_False_text:
  "fst (extractTrackedCallouts text tts False gen) = joinLines (splitLines text)"
  by (simp add: extractTrackedCallouts_def case_prod_beta scan_False_lines)

lemma extract_callouts:
  "snd (extractTrackedCallouts text tts a gen) =
   snd (scanCallouts (uniqLower tts) a gen 0 0 (splitLines text))"
  by (simp add: extractTrackedCallouts_def case_prod_beta)

lemma extract_text:
  "fst (extractTrackedCallouts text tts a gen) =
   joinLines (fst (scanCallouts (uniqLower tts) a gen 0 0 (splitLines text)))"
  by (simp add: extractTrackedCallouts_def case_prod_beta)

lemma extract_ordered:
  "sorted_wrt (\<lambda>a b. startLine a < startLine b) (snd (extractTrackedCallouts text tts auto gen))"
proof -
  let ?cs = "snd (scanCallouts (uniqLower tts) auto gen 0 0 (splitLines text))"
  let ?m = "0 + length (fst (scanCallouts (uniqLower tts) auto gen 0 0 (splitLines text)))"
  have ord: "orderedFrom 0 ?m ?cs" by (rule scan_ordered)
  have "sorted_wrt (\<lambda>a b. nextIndex a \<le> startLine b) ?cs"
    using ord by (rule orderedFrom_sorted)
  then have "sorted_wrt (\<lambda>a b. startLine a < startLine b) ?cs"
  proof (rule sorted_wrt_mono_rel [rotated])
    fix a b :: callout
    assume "a \<in> set ?cs" and "nextIndex a \<le> startLine b"
    then show "startLine a < startLine b"
      using orderedFrom_bounds [OF ord, of a] by simp
  qed
  then show ?thesis by (simp add: extract_callouts)
qed

text \<open>
  C5, as amended: the returned callouts are in document order (strictly increasing
  \<open>startLine\<close>); and when \<open>autoInsertIds\<close> is false, or every tracked callout already
  has an identifier, the returned text is the input's lines joined by LF, which is the
  input itself, character for character, when the input has no CR LF pair.
\<close>

theorem extract_result_guarantee:
  "sorted_wrt (\<lambda>a b. startLine a < startLine b) (snd (extractTrackedCallouts text tts auto gen)) \<and>
   ((\<not> auto \<or> (\<forall>c \<in> set (snd (extractTrackedCallouts text tts False gen)). blockId c \<noteq> None)) \<longrightarrow>
      fst (extractTrackedCallouts text tts auto gen) = joinLines (splitLines text) \<and>
      (crlfFree text \<longrightarrow> fst (extractTrackedCallouts text tts auto gen) = text))"
proof (intro conjI impI)
  show "sorted_wrt (\<lambda>a b. startLine a < startLine b) (snd (extractTrackedCallouts text tts auto gen))"
    by (rule extract_ordered)
  assume h: "\<not> auto \<or> (\<forall>c \<in> set (snd (extractTrackedCallouts text tts False gen)). blockId c \<noteq> None)"
  show eq: "fst (extractTrackedCallouts text tts auto gen) = joinLines (splitLines text)"
  proof (cases auto)
    case False
    then show ?thesis by (simp add: extract_False_text)
  next
    case True
    with h have "\<forall>c \<in> set (snd (scanCallouts (uniqLower tts) False gen 0 0 (splitLines text))). blockId c \<noteq> None"
      by (simp add: extract_callouts)
    then have "scanCallouts (uniqLower tts) True gen 0 0 (splitLines text)
             = scanCallouts (uniqLower tts) False gen 0 0 (splitLines text)"
      by (rule scan_all_have_ids)
    then show ?thesis using True by (simp add: extract_text scan_False_lines)
  qed
  assume "crlfFree text"
  then show "fst (extractTrackedCallouts text tts auto gen) = text"
    using eq by (simp add: join_split)
qed

theorem extract_result_guarantee_witness:
  "map blockId (snd (extractTrackedCallouts docWithId [''todo''] False noIds)) = [Some ''abc12345''] \<and>
   crlfFree docWithId \<and>
   fst (extractTrackedCallouts docWithId [''todo''] True noIds) = docWithId \<and>
   map startLine (snd (extractTrackedCallouts docWithId [''todo''] True noIds)) = [1]"
proof -
  have ids: "map blockId (snd (extractTrackedCallouts docWithId [''todo''] False noIds)) = [Some ''abc12345'']"
    by code_simp
  then have h: "\<forall>c \<in> set (snd (extractTrackedCallouts docWithId [''todo''] False noIds)). blockId c \<noteq> None"
    by (auto simp: map_eq_Cons_conv)
  have c: "crlfFree docWithId" by code_simp
  have m: "map startLine (snd (extractTrackedCallouts docWithId [''todo''] True noIds)) = [1]"
    by code_simp
  show ?thesis
    using extract_result_guarantee [of docWithId "[''todo'']" True noIds] ids h c m by blast
qed

text \<open>
  C5, as stated, fails on a text with a CR LF line break: with \<open>autoInsertIds\<close> false
  the text \<open>a\r\nb\<close> comes back as \<open>a\nb\<close>.
\<close>

theorem extract_crlf_counterexample:
  "fst (extractTrackedCallouts (''a'' @ [CR, LF] @ ''b'') [''todo''] False noIds) \<noteq> ''a'' @ [CR, LF] @ ''b''"
  by code_simp

section \<open>Invariants of the master-chunk parser\<close>

lemma applyOps_nonOverlapping:
  "nonOverlapping lines ops \<Longrightarrow> applyOps ops lines = replaceRanges 0 lines (rev (sortOps ops))"
  using fold_applyOp_descChain [OF nonOverlapping_descChain, of lines ops "[]"]
  by (simp add: applyOps_def)

lemma insort_key_last:
  "\<forall>y \<in> set ys. f y < f x \<Longrightarrow> insort_key f x ys = ys @ [x]"
  by (induction ys) auto

lemma sortOps_ascending:
  "sorted_wrt (\<lambda>a b. opStart a < opStart b) ops \<Longrightarrow> sortOps ops = rev ops"
proof (induction ops)
  case Nil
  show ?case by (simp add: sortOps_def)
next
  case (Cons p ps)
  then have ih: "sort_key (\<lambda>p. - int (opStart p)) ps = rev ps"
    by (simp add: sortOps_def)
  have "\<forall>y \<in> set (rev ps). - int (opStart y) < - int (opStart p)"
    using Cons.prems by simp
  then show ?case
    using ih by (simp add: sortOps_def insort_key_last)
qed

lemma sorted_wrt_cases:
  "sorted_wrt R xs \<Longrightarrow> a \<in> set xs \<Longrightarrow> b \<in> set xs \<Longrightarrow> a = b \<or> R a b \<or> R b a"
  by (induction xs) auto

lemma orderedChunks_mono: "orderedChunks i m cs \<Longrightarrow> j \<le> i \<Longrightarrow> orderedChunks j m cs"
  by (cases cs) auto

lemma chunksFrom_ordered: "orderedChunks i (i + length ls) (chunksFrom h i ls)"
proof (induction h i ls rule: chunksFrom.induct)
  case (1 h i)
  show ?case by simp
next
  case (2 h i l rest)
  show ?case
  proof (cases "parseMasterLinkLine h l")
    case None
    then show ?thesis using 2 by (auto intro: orderedChunks_mono)
  next
    case (Some hd)
    let ?raw = "takeWhile (\<lambda>x. \<not> isLink h x) rest"
    let ?after = "dropWhile (\<lambda>x. \<not> isLink h x) rest"
    let ?j = "i + 1 + length ?raw"
    have "length rest = length ?raw + length ?after"
      by (metis length_append takeWhile_dropWhile_id)
    then have eq: "?j + length ?after = i + length (l # rest)" by simp
    have "orderedChunks ?j (?j + length ?after) (chunksFrom h ?j ?after)"
      using 2(2) [OF Some refl refl] .
    then have "orderedChunks ?j (i + length (l # rest)) (chunksFrom h ?j ?after)"
      by (simp only: eq)
    then show ?thesis using Some
      by (simp add: Let_def)
  qed
qed

lemma orderedChunks_le: "orderedChunks i m cs \<Longrightarrow> i \<le> m"
  by (induction cs arbitrary: i) fastforce+

lemma orderedChunks_filter: "orderedChunks i m cs \<Longrightarrow> orderedChunks i m (filter P cs)"
proof (induction cs arbitrary: i)
  case Nil
  then show ?case by simp
next
  case (Cons c cs)
  then have "orderedChunks (chEnd c) m (filter P cs)" by simp
  then show ?case using Cons.prems by (auto intro: orderedChunks_mono)
qed

lemma orderedChunks_bounds:
  "orderedChunks i m cs \<Longrightarrow> c \<in> set cs \<Longrightarrow> i \<le> chStart c \<and> chStart c < chEnd c \<and> chEnd c \<le> m"
proof (induction cs arbitrary: i)
  case Nil
  then show ?case by simp
next
  case (Cons d cs)
  show ?case
  proof (cases "c = d")
    case True
    then show ?thesis using Cons.prems orderedChunks_le [of "chEnd d" m cs] by simp
  next
    case False
    then have "c \<in> set cs" and "orderedChunks (chEnd d) m cs" using Cons.prems by simp_all
    then have "chEnd d \<le> chStart c \<and> chStart c < chEnd c \<and> chEnd c \<le> m"
      using Cons.IH [of "chEnd d"] by simp
    then show ?thesis using Cons.prems by simp
  qed
qed

lemma orderedChunks_sorted:
  "orderedChunks i m cs \<Longrightarrow> sorted_wrt (\<lambda>a b. chEnd a \<le> chStart b) cs"
proof (induction cs arbitrary: i)
  case Nil
  then show ?case by simp
next
  case (Cons d cs)
  then show ?case using orderedChunks_bounds [of "chEnd d" m cs] by auto
qed

lemma chunkOp_range [simp]: "opStart (chunkOp sf cs ch) = chStart ch" "opEnd (chunkOp sf cs ch) = chEnd ch"
  by (simp_all add: chunkOp_def split: option.splits)

lemma masterOps_map: "masterOps sf cs existing = map (chunkOp sf cs) existing"
  by (simp add: masterOps_def chunkOp_def)

lemma masterOps_sorted:
  assumes "orderedChunks i m existing"
  shows "sorted_wrt (\<lambda>a b. opEnd a \<le> opStart b) (masterOps sf cs existing)"
  using orderedChunks_sorted [OF assms]
  by (simp add: masterOps_map sorted_wrt_map)

lemma masterOps_nonOverlapping:
  assumes "orderedChunks 0 (length lines) existing"
  shows "nonOverlapping lines (masterOps sf cs existing)"
    and "sortOps (masterOps sf cs existing) = rev (masterOps sf cs existing)"
proof -
  let ?ops = "masterOps sf cs existing"
  have b: "opStart p < opEnd p \<and> opEnd p \<le> length lines" if "p \<in> set ?ops" for p
    using that orderedChunks_bounds [OF assms] by (auto simp: masterOps_map)
  have s: "sorted_wrt (\<lambda>a b. opEnd a \<le> opStart b) ?ops"
    using assms by (rule masterOps_sorted)
  then have s2: "sorted_wrt (\<lambda>a b. opStart a < opStart b) ?ops"
  proof (rule sorted_wrt_mono_rel [rotated])
    fix a b :: op
    assume "a \<in> set ?ops" "opEnd a \<le> opStart b"
    then show "opStart a < opStart b" using b [of a] by simp
  qed
  then show "sortOps ?ops = rev ?ops" by (rule sortOps_ascending)
  have "sorted_wrt (<) (map opStart ?ops)"
    using s2 by (simp add: sorted_wrt_map)
  then have d: "distinct (map opStart ?ops)"
    by (simp add: strict_sorted_iff)
  have pw: "opEnd p \<le> opStart q" if "p \<in> set ?ops" "q \<in> set ?ops" "opStart p < opStart q" for p q
    using sorted_wrt_cases [OF s that(1,2)] that(3) b [OF that(2)] by auto
  show "nonOverlapping lines ?ops"
    using d b pw by (auto simp: nonOverlapping_def dest: less_imp_le)
qed

section \<open>Duplicate chunks in the master\<close>

lemma calloutsById_last:
  "calloutsById cs k =
     (if \<exists>d \<in> set cs. blockId d = k then Some (last (filter (\<lambda>d. blockId d = k) cs)) else None)"
proof (induction cs rule: rev_induct)
  case Nil
  show ?case by (simp add: calloutsById_def)
next
  case (snoc x cs)
  then show ?case by (auto simp: calloutsById_def)
qed

lemma entriesFor_ordered:
  "orderedChunks 0 (length (splitLines M)) (entriesFor h M p)"
  using chunksFrom_ordered [of 0 "splitLines M" h]
  by (simp add: entriesFor_def parseMasterChunks_def Let_def orderedChunks_filter)

text \<open>
  C10: for the chunks of the master that belong to the source file, duplicates
  included, \<open>updateMasterForSourceFile\<close> builds one operation per chunk, on that
  chunk's own span; the operation inserts the chunk lines built from the current
  callout with the chunk's id (the last one, if several have it), the same lines for
  every duplicate, or nothing when no current callout has that id; the splices replace
  every span in place, so duplicates are neither merged nor dropped; and the text that
  \<open>updateMasterForSourceFile\<close> leaves in the master is these replaced lines, followed
  by the chunks of the callouts that had no chunk, joined by LF with a final LF.
\<close>

theorem duplicate_chunks_each_replaced:
  assumes "existing = entriesFor h masterText (fpath sf)"
    and "ops = masterOps sf cs existing"
  shows "map (\<lambda>p. (opStart p, opEnd p)) ops = map (\<lambda>ch. (chStart ch, chEnd ch)) existing \<and>
         (\<forall>k < length existing.
            opInsert (ops ! k) =
              (if \<exists>d \<in> set cs. blockId d = Some (chBlockId (existing ! k))
               then chunkFor sf (last (filter (\<lambda>d. blockId d = Some (chBlockId (existing ! k))) cs))
               else [])) \<and>
         (\<forall>j < length existing. \<forall>k < length existing.
            chBlockId (existing ! j) = chBlockId (existing ! k) \<longrightarrow>
            opInsert (ops ! j) = opInsert (ops ! k)) \<and>
         applyOps ops (splitLines masterText) = replaceRanges 0 (splitLines masterText) ops \<and>
         updateMasterText h sf cs masterText =
           ensureFinalLF (joinLines
             (if masterAdditions sf cs existing \<noteq> [] then
                (if replaceRanges 0 (splitLines masterText) ops \<noteq> [] \<and>
                    \<not> isBlank (last (replaceRanges 0 (splitLines masterText) ops))
                 then replaceRanges 0 (splitLines masterText) ops @ [[]]
                 else replaceRanges 0 (splitLines masterText) ops) @ masterAdditions sf cs existing
              else replaceRanges 0 (splitLines masterText) ops)) \<and>
         fst (updateMasterForSourceFile h sf cs masterText) = updateMasterText h sf cs masterText"
proof (intro conjI)
  have ops: "ops = map (chunkOp sf cs) existing"
    using assms(2) by (simp add: masterOps_map)
  show "map (\<lambda>p. (opStart p, opEnd p)) ops = map (\<lambda>ch. (chStart ch, chEnd ch)) existing"
    by (simp add: ops)
  have ins: "opInsert (ops ! k) =
              (if \<exists>d \<in> set cs. blockId d = Some (chBlockId (existing ! k))
               then chunkFor sf (last (filter (\<lambda>d. blockId d = Some (chBlockId (existing ! k))) cs))
               else [])" if "k < length existing" for k
    using that by (simp add: ops chunkOp_def calloutsById_last)
  then show "\<forall>k < length existing.
            opInsert (ops ! k) =
              (if \<exists>d \<in> set cs. blockId d = Some (chBlockId (existing ! k))
               then chunkFor sf (last (filter (\<lambda>d. blockId d = Some (chBlockId (existing ! k))) cs))
               else [])"
    by blast
  show "\<forall>j < length existing. \<forall>k < length existing.
            chBlockId (existing ! j) = chBlockId (existing ! k) \<longrightarrow>
            opInsert (ops ! j) = opInsert (ops ! k)"
    using ins by simp
  have ord: "orderedChunks 0 (length (splitLines masterText)) existing"
    using assms(1) by (simp add: entriesFor_ordered)
  show ap: "applyOps ops (splitLines masterText) = replaceRanges 0 (splitLines masterText) ops"
    using applyOps_nonOverlapping [OF masterOps_nonOverlapping(1) [OF ord, of sf cs]]
      masterOps_nonOverlapping(2) [OF ord, of sf cs] assms(2)
    by simp
  have ex: "filter (\<lambda>c. sourcePath c = fpath sf) (chunksFrom h 0 (splitLines masterText)) = existing"
    using assms(1) by (simp add: entriesFor_def parseMasterChunks_def Let_def)
  show "updateMasterText h sf cs masterText =
           ensureFinalLF (joinLines
             (if masterAdditions sf cs existing \<noteq> [] then
                (if replaceRanges 0 (splitLines masterText) ops \<noteq> [] \<and>
                    \<not> isBlank (last (replaceRanges 0 (splitLines masterText) ops))
                 then replaceRanges 0 (splitLines masterText) ops @ [[]]
                 else replaceRanges 0 (splitLines masterText) ops) @ masterAdditions sf cs existing
              else replaceRanges 0 (splitLines masterText) ops))"
    unfolding updateMasterText_def parseMasterChunks_def Let_def prod.case ex
      assms(2) [symmetric] ap ..
  show "fst (updateMasterForSourceFile h sf cs masterText) = updateMasterText h sf cs masterText"
    by (simp add: updateMasterForSourceFile_def writeFileIfChanged_def)
qed

theorem duplicate_chunks_each_replaced_witness:
  "map chBlockId (entriesFor plainHost dupMaster (fpath noteFile)) = [''abc'', ''abc'', ''gone''] \<and>
   map (\<lambda>p. (opStart p, opEnd p))
     (masterOps noteFile twoCallouts (entriesFor plainHost dupMaster (fpath noteFile)))
     = [(0, 3), (3, 6), (6, 9)] \<and>
   map opInsert (masterOps noteFile twoCallouts (entriesFor plainHost dupMaster (fpath noteFile)))
     = [[''[Note](Note.md#^abc)'', ''a'', ''b'', ''''],
        [''[Note](Note.md#^abc)'', ''a'', ''b'', ''''], []] \<and>
   applyOps (masterOps noteFile twoCallouts (entriesFor plainHost dupMaster (fpath noteFile)))
      (splitLines dupMaster)
     = [''[Note](Note.md#^abc)'', ''a'', ''b'', '''', ''[Note](Note.md#^abc)'', ''a'', ''b'', ''''] \<and>
   masterAdditions noteFile twoCallouts (entriesFor plainHost dupMaster (fpath noteFile))
     = [''[Note](Note.md#^def)'', ''c'', ''''] \<and>
   updateMasterForSourceFile plainHost noteFile twoCallouts dupMaster
     = (''[Note](Note.md#^abc)'' @ [LF] @ ''a'' @ [LF] @ ''b'' @ [LF, LF] @
        ''[Note](Note.md#^abc)'' @ [LF] @ ''a'' @ [LF] @ ''b'' @ [LF, LF] @
        ''[Note](Note.md#^def)'' @ [LF] @ ''c'' @ [LF], True)"
proof -
  have a: "map chBlockId (entriesFor plainHost dupMaster (fpath noteFile)) = [''abc'', ''abc'', ''gone'']"
    by code_simp
  have b: "map (\<lambda>ch. (chStart ch, chEnd ch)) (entriesFor plainHost dupMaster (fpath noteFile))
           = [(0, 3), (3, 6), (6, 9)]"
    by code_simp
  have c: "map opInsert (masterOps noteFile twoCallouts (entriesFor plainHost dupMaster (fpath noteFile)))
     = [[''[Note](Note.md#^abc)'', ''a'', ''b'', ''''],
        [''[Note](Note.md#^abc)'', ''a'', ''b'', ''''], []]"
    by code_simp
  have d: "replaceRanges 0 (splitLines dupMaster)
             (masterOps noteFile twoCallouts (entriesFor plainHost dupMaster (fpath noteFile)))
     = [''[Note](Note.md#^abc)'', ''a'', ''b'', '''', ''[Note](Note.md#^abc)'', ''a'', ''b'', '''']"
    by code_simp
  have e: "masterAdditions noteFile twoCallouts (entriesFor plainHost dupMaster (fpath noteFile))
     = [''[Note](Note.md#^def)'', ''c'', '''']"
    by code_simp
  have f: "updateMasterForSourceFile plainHost noteFile twoCallouts dupMaster
     = (''[Note](Note.md#^abc)'' @ [LF] @ ''a'' @ [LF] @ ''b'' @ [LF, LF] @
        ''[Note](Note.md#^abc)'' @ [LF] @ ''a'' @ [LF] @ ''b'' @ [LF, LF] @
        ''[Note](Note.md#^def)'' @ [LF] @ ''c'' @ [LF], True)"
    by code_simp
  show ?thesis
    using duplicate_chunks_each_replaced [OF refl refl,
        where h = plainHost and masterText = dupMaster and sf = noteFile and cs = twoCallouts]
      a b c d e f
    by simp
qed

section \<open>Edits from the master into a source\<close>

lemma extract_False_ordered:
  "orderedFrom 0 (length (splitLines text)) (snd (extractTrackedCallouts text tts False gen))"
  using scan_ordered [of 0 "uniqLower tts" False gen 0 "splitLines text"]
  by (simp add: extract_callouts scan_False_lines)

lemma orderedFrom_inj:
  assumes "orderedFrom i m cs" "a \<in> set cs" "b \<in> set cs" "startLine a = startLine b"
  shows "a = b"
  using sorted_wrt_cases [OF orderedFrom_sorted [OF assms(1)] assms(2,3)]
    orderedFrom_bounds [OF assms(1,2)] orderedFrom_bounds [OF assms(1,3)] assms(4)
  by auto

lemma orderedFrom_apart:
  assumes "orderedFrom i m cs" "a \<in> set cs" "b \<in> set cs" "startLine a < startLine b"
  shows "nextIndex a \<le> startLine b"
  using sorted_wrt_cases [OF orderedFrom_sorted [OF assms(1)] assms(2,3)]
    orderedFrom_bounds [OF assms(1,2)] orderedFrom_bounds [OF assms(1,3)] assms(4)
  by auto

lemma sourceOps_map:
  "sourceOps cs entries =
   map (\<lambda>e. bodyOp (the (calloutsById cs (Some (chBlockId e)))) e)
     (filter (\<lambda>e. calloutsById cs (Some (chBlockId e)) \<noteq> None) entries)"
  unfolding sourceOps_def
  by (induction entries) (auto simp: bodyOp_def)

lemma sourceOps_nonOverlapping:
  assumes ord: "orderedFrom 0 (length lines) cs"
    and dist: "distinct (map chBlockId entries)"
  shows "nonOverlapping lines (sourceOps cs entries)"
proof -
  let ?ops = "sourceOps cs entries"
  let ?es = "filter (\<lambda>e. calloutsById cs (Some (chBlockId e)) \<noteq> None) entries"
  let ?f = "\<lambda>e. bodyOp (the (calloutsById cs (Some (chBlockId e)))) e"
  have mem: "\<exists>e \<in> set entries. \<exists>c \<in> set cs. blockId c = Some (chBlockId e) \<and> p = bodyOp c e"
    if "p \<in> set ?ops" for p
    using sourceOps_member [OF that] by (auto simp: bodyOp_def)
  have bounds: "opStart p \<le> opEnd p \<and> opEnd p \<le> length lines" if pin: "p \<in> set ?ops" for p
  proof -
    obtain e c where "c \<in> set cs" "p = bodyOp c e" using mem [OF pin] by blast
    then show ?thesis using orderedFrom_bounds [OF ord, of c] by (simp add: bodyOp_def)
  qed
  have pw: "opEnd p \<le> opStart q"
    if pin: "p \<in> set ?ops" and qin: "q \<in> set ?ops" and lt: "opStart p < opStart q" for p q
  proof -
    obtain e c where c: "c \<in> set cs" "p = bodyOp c e" using mem [OF pin] by blast
    obtain e' c' where c': "c' \<in> set cs" "q = bodyOp c' e'" using mem [OF qin] by blast
    have "startLine c < startLine c'" using lt c c' by (simp add: bodyOp_def)
    then have "nextIndex c \<le> startLine c'"
      using orderedFrom_apart [OF ord c(1) c'(1)] by simp
    then show ?thesis
      using orderedFrom_bounds [OF ord c(1)] c c' by (simp add: bodyOp_def)
  qed
  have inj: "inj_on (opStart \<circ> ?f) (set ?es)"
  proof (rule inj_onI)
    fix e e'
    assume e: "e \<in> set ?es" and e': "e' \<in> set ?es" and eq: "(opStart \<circ> ?f) e = (opStart \<circ> ?f) e'"
    obtain c where c: "calloutsById cs (Some (chBlockId e)) = Some c" using e by auto
    obtain c' where c': "calloutsById cs (Some (chBlockId e')) = Some c'" using e' by auto
    have "startLine c = startLine c'" using eq c c' by (simp add: bodyOp_def)
    then have "c = c'"
      using orderedFrom_inj [OF ord] calloutsById_Some [OF c] calloutsById_Some [OF c'] by blast
    then have "chBlockId e = chBlockId e'"
      using calloutsById_Some [OF c] calloutsById_Some [OF c'] by simp
    moreover have "inj_on chBlockId (set entries)" using dist by (simp add: distinct_map)
    ultimately show "e = e'" using e e' by (auto dest: inj_onD)
  qed
  have "distinct entries" using dist by (simp add: distinct_map)
  then have "distinct (map (opStart \<circ> ?f) ?es)"
    using inj by (simp add: distinct_map)
  then have d: "distinct (map opStart ?ops)"
    by (simp add: sourceOps_map)
  show ?thesis
    using d bounds pw by (auto simp: nonOverlapping_def)
qed

lemma calloutsById_None: "calloutsById cs k = None \<longleftrightarrow> (\<forall>d \<in> set cs. blockId d \<noteq> k)"
  by (auto simp: calloutsById_last)

lemma applyMasterEditsToSource_eq:
  "applyMasterEditsToSource sourceText ty entries =
   joinLines (applyOps (sourceOps (snd (extractTrackedCallouts sourceText [ty] False noIds)) entries)
                (splitLines (joinLines (splitLines sourceText))))"
  using extract_False_text [of sourceText "[ty]" noIds]
  by (simp add: applyMasterEditsToSource_def case_prod_beta)

lemma applyOps_Nil [simp]: "applyOps [] lines = lines"
  by (simp add: applyOps_def sortOps_def)

lemma map_cong_filter:
  assumes "\<And>x. x \<in> set xs \<Longrightarrow> P x = Q x" "\<And>x. x \<in> set xs \<Longrightarrow> Q x \<Longrightarrow> f x = g x"
  shows "map f (filter P xs) = map g (filter Q xs)"
  using assms by (induction xs) auto

text \<open>
  C9, as amended: for a source text with no CR LF pair and entries with pairwise
  distinct block ids, \<open>applyMasterEditsToSource\<close> returns the source's lines with the
  ranges of its operations replaced simultaneously; the operations do not overlap;
  there is exactly one operation for each entry whose id is the id of a callout, in the
  order of the entries, and none for the other entries; the operation of an entry is on
  the body span (\<open>startLine + 1\<close> to \<open>quoteEndLine\<close>) of the callout that the lookup by
  id finds, which is the last callout with that id, and inserts that entry's quoted
  body; no header line and no identifier line of any callout lies in a replaced range;
  and when no entry's id matches a callout, the text is returned unchanged.
\<close>

theorem master_edits_frame:
  assumes "crlfFree sourceText"
    and "distinct (map chBlockId entries)"
    and "cs = snd (extractTrackedCallouts sourceText [ty] False noIds)"
    and "ops = sourceOps cs entries"
  shows "applyMasterEditsToSource sourceText ty entries
           = joinLines (replaceRanges 0 (splitLines sourceText) (rev (sortOps ops))) \<and>
         nonOverlapping (splitLines sourceText) ops \<and>
         ops = map (\<lambda>e. \<lparr>opStart = startLine (last (filter (\<lambda>c. blockId c = Some (chBlockId e)) cs)) + 1,
                          opEnd = quoteEndLine (last (filter (\<lambda>c. blockId c = Some (chBlockId e)) cs)),
                          opInsert = quoteBodyLines (chBodyLines e)\<rparr>)
                 (filter (\<lambda>e. \<exists>c \<in> set cs. blockId c = Some (chBlockId e)) entries) \<and>
         (\<forall>e \<in> set entries. \<forall>c. calloutsById cs (Some (chBlockId e)) = Some c \<longrightarrow>
            c = last (filter (\<lambda>c. blockId c = Some (chBlockId e)) cs) \<and>
            \<lparr>opStart = startLine c + 1, opEnd = quoteEndLine c,
             opInsert = quoteBodyLines (chBodyLines e)\<rparr> \<in> set ops) \<and>
         (\<forall>p \<in> set ops. \<exists>e \<in> set entries. \<exists>c \<in> set cs.
            blockId c = Some (chBlockId e) \<and> opStart p = startLine c + 1 \<and>
            opEnd p = quoteEndLine c \<and> opInsert p = quoteBodyLines (chBodyLines e)) \<and>
         (\<forall>c \<in> set cs. \<forall>p \<in> set ops.
            \<not> (opStart p \<le> startLine c \<and> startLine c < opEnd p) \<and>
            (\<forall>k. idLine c = Some k \<longrightarrow> \<not> (opStart p \<le> k \<and> k < opEnd p))) \<and>
         ((\<forall>e \<in> set entries. \<forall>c \<in> set cs. blockId c \<noteq> Some (chBlockId e)) \<longrightarrow>
            applyMasterEditsToSource sourceText ty entries = sourceText)"
proof (intro conjI)
  have js: "joinLines (splitLines sourceText) = sourceText"
    using assms(1) by (rule join_split)
  have ord: "orderedFrom 0 (length (splitLines sourceText)) cs"
    using assms(3) by (simp add: extract_False_ordered)
  have eq: "applyMasterEditsToSource sourceText ty entries
            = joinLines (applyOps ops (splitLines sourceText))"
    using assms(3,4) js by (simp add: applyMasterEditsToSource_eq)
  show non: "nonOverlapping (splitLines sourceText) ops"
    using ord assms(2,4) by (simp add: sourceOps_nonOverlapping)
  show "applyMasterEditsToSource sourceText ty entries
           = joinLines (replaceRanges 0 (splitLines sourceText) (rev (sortOps ops)))"
    using eq applyOps_nonOverlapping [OF non] by simp
  show lst: "ops = map (\<lambda>e. \<lparr>opStart = startLine (last (filter (\<lambda>c. blockId c = Some (chBlockId e)) cs)) + 1,
                          opEnd = quoteEndLine (last (filter (\<lambda>c. blockId c = Some (chBlockId e)) cs)),
                          opInsert = quoteBodyLines (chBodyLines e)\<rparr>)
                 (filter (\<lambda>e. \<exists>c \<in> set cs. blockId c = Some (chBlockId e)) entries)"
    unfolding assms(4) sourceOps_map
    by (rule map_cong_filter) (auto simp: calloutsById_last bodyOp_def)
  show "\<forall>e \<in> set entries. \<forall>c. calloutsById cs (Some (chBlockId e)) = Some c \<longrightarrow>
            c = last (filter (\<lambda>c. blockId c = Some (chBlockId e)) cs) \<and>
            \<lparr>opStart = startLine c + 1, opEnd = quoteEndLine c,
             opInsert = quoteBodyLines (chBodyLines e)\<rparr> \<in> set ops"
  proof (intro ballI allI impI)
    fix e c
    assume e: "e \<in> set entries" and c: "calloutsById cs (Some (chBlockId e)) = Some c"
    then have l: "c = last (filter (\<lambda>c. blockId c = Some (chBlockId e)) cs)"
      and ex: "\<exists>c \<in> set cs. blockId c = Some (chBlockId e)"
      by (auto simp: calloutsById_last split: if_splits)
    have "\<lparr>opStart = startLine c + 1, opEnd = quoteEndLine c,
             opInsert = quoteBodyLines (chBodyLines e)\<rparr> \<in> set ops"
      using e ex l by (subst lst) (auto simp: image_iff intro!: bexI [of _ e])
    then show "c = last (filter (\<lambda>c. blockId c = Some (chBlockId e)) cs) \<and>
            \<lparr>opStart = startLine c + 1, opEnd = quoteEndLine c,
             opInsert = quoteBodyLines (chBodyLines e)\<rparr> \<in> set ops"
      using l by simp
  qed
  show mem: "\<forall>p \<in> set ops. \<exists>e \<in> set entries. \<exists>c \<in> set cs.
            blockId c = Some (chBlockId e) \<and> opStart p = startLine c + 1 \<and>
            opEnd p = quoteEndLine c \<and> opInsert p = quoteBodyLines (chBodyLines e)"
    using sourceOps_member [of _ cs entries] assms(4) by fastforce
  show "\<forall>c \<in> set cs. \<forall>p \<in> set ops.
            \<not> (opStart p \<le> startLine c \<and> startLine c < opEnd p) \<and>
            (\<forall>k. idLine c = Some k \<longrightarrow> \<not> (opStart p \<le> k \<and> k < opEnd p))"
  proof (intro ballI)
    fix c p
    assume c: "c \<in> set cs" and p: "p \<in> set ops"
    obtain d where d: "d \<in> set cs" "opStart p = startLine d + 1" "opEnd p = quoteEndLine d"
      using mem p by blast
    have bc: "startLine c < quoteEndLine c" "quoteEndLine c \<le> nextIndex c" "idLineBelow c"
      and bd: "startLine d < quoteEndLine d" "quoteEndLine d \<le> nextIndex d"
      using orderedFrom_bounds [OF ord c] orderedFrom_bounds [OF ord d(1)] by simp_all
    consider "c = d" | "nextIndex c \<le> startLine d" | "nextIndex d \<le> startLine c"
      using sorted_wrt_cases [OF orderedFrom_sorted [OF ord] c d(1)] by blast
    then show "\<not> (opStart p \<le> startLine c \<and> startLine c < opEnd p) \<and>
            (\<forall>k. idLine c = Some k \<longrightarrow> \<not> (opStart p \<le> k \<and> k < opEnd p))"
    proof cases
      case 1
      then show ?thesis using d bc by (auto simp: nextIndex_def idLineBelow_def)
    next
      case 2
      then show ?thesis using d bc bd by (auto simp: nextIndex_def idLineBelow_def)
    next
      case 3
      then show ?thesis using d bc bd by (auto simp: nextIndex_def idLineBelow_def)
    qed
  qed
  show "(\<forall>e \<in> set entries. \<forall>c \<in> set cs. blockId c \<noteq> Some (chBlockId e)) \<longrightarrow>
            applyMasterEditsToSource sourceText ty entries = sourceText"
  proof
    assume "\<forall>e \<in> set entries. \<forall>c \<in> set cs. blockId c \<noteq> Some (chBlockId e)"
    then have "filter (\<lambda>e. calloutsById cs (Some (chBlockId e)) \<noteq> None) entries = []"
      by (auto simp: filter_empty_conv calloutsById_None)
    then have "ops = []" using assms(4) by (simp add: sourceOps_map)
    then show "applyMasterEditsToSource sourceText ty entries = sourceText"
      using eq js by simp
  qed
qed

theorem master_edits_frame_witness:
  "crlfFree threeLineSource \<and>
   map chBlockId (entriesFor plainHost editedMaster ''Note.md'') = [''abc'', ''zzz''] \<and>
   map (\<lambda>p. (opStart p, opEnd p))
     (sourceOps (snd (extractTrackedCallouts threeLineSource [''todo''] False noIds))
        (entriesFor plainHost editedMaster ''Note.md'')) = [(1, 4)] \<and>
   applyMasterEditsToSource threeLineSource ''todo'' (entriesFor plainHost editedMaster ''Note.md'')
     = ''> [!todo]'' @ [LF] @ ''> x'' @ [LF, LF] @ ''^abc'' @ [LF] @ ''tail''"
proof -
  have h1: "crlfFree threeLineSource" by code_simp
  have ids: "map chBlockId (entriesFor plainHost editedMaster ''Note.md'') = [''abc'', ''zzz'']"
    by code_simp
  then have h2: "distinct (map chBlockId (entriesFor plainHost editedMaster ''Note.md''))"
    by simp
  have r: "map (\<lambda>p. (opStart p, opEnd p))
     (sourceOps (snd (extractTrackedCallouts threeLineSource [''todo''] False noIds))
        (entriesFor plainHost editedMaster ''Note.md'')) = [(1, 4)]"
    by code_simp
  have v: "joinLines (replaceRanges 0 (splitLines threeLineSource)
             (rev (sortOps (sourceOps (snd (extractTrackedCallouts threeLineSource [''todo''] False noIds))
                (entriesFor plainHost editedMaster ''Note.md'')))))
     = ''> [!todo]'' @ [LF] @ ''> x'' @ [LF, LF] @ ''^abc'' @ [LF] @ ''tail''"
    by code_simp
  show ?thesis
    using master_edits_frame [OF h1 h2 refl refl, where ty = "''todo''"] h1 ids r v
    by simp
qed

text \<open>
  C9, as stated, fails. With two entries of the same id, the second splice runs over
  the shorter body the first one left and deletes the blank line and the identifier
  line below the callout; and a source with a CR LF line break comes back with LF even
  though no entry matches.
\<close>

theorem master_edits_frame_counterexample:
  "applyMasterEditsToSource threeLineSource ''todo'' (entriesFor plainHost dupMaster ''Note.md'')
     = ''> [!todo]'' @ [LF] @ ''> y'' @ [LF] @ ''tail'' \<and>
   applyMasterEditsToSource (''a'' @ [CR, LF] @ ''b'') ''todo''
       (entriesFor plainHost dupMaster ''Note.md'')
     \<noteq> ''a'' @ [CR, LF] @ ''b''"
  by code_simp

section \<open>Re-parsing a rewritten source\<close>

lemma replaceRanges_skip:
  "pos \<le> pos' \<Longrightarrow> \<forall>p \<in> set ops. pos' \<le> opStart p \<Longrightarrow>
   replaceRanges pos L ops = take (pos' - pos) (drop pos L) @ replaceRanges pos' L ops"
proof (cases ops)
  case Nil
  assume "pos \<le> pos'"
  then have "drop pos' L = drop (pos' - pos) (drop pos L)" by simp
  then show ?thesis using Nil by (simp del: drop_drop)
next
  case (Cons p ps)
  assume le: "pos \<le> pos'" and "\<forall>p \<in> set ops. pos' \<le> opStart p"
  then have sp: "pos' \<le> opStart p" using Cons by simp
  have "opStart p - pos = (pos' - pos) + (opStart p - pos')" using le sp by simp
  then have "take (opStart p - pos) (drop pos L)
        = take (pos' - pos) (drop pos L) @ take (opStart p - pos') (drop (pos' - pos) (drop pos L))"
    by (simp only: take_add)
  moreover have "drop (pos' - pos) (drop pos L) = drop pos' L" using le by simp
  ultimately show ?thesis using Cons by simp
qed

lemma replaceRanges_set:
  "set (replaceRanges pos L ops) \<subseteq> set L \<union> (\<Union>p \<in> set ops. set (opInsert p))"
proof (induction ops arbitrary: pos)
  case Nil
  show ?case by (simp add: set_drop_subset)
next
  case (Cons p ps)
  have "set (take (opStart p - pos) (drop pos L)) \<subseteq> set L"
    by (meson set_take_subset set_drop_subset subset_trans)
  then show ?case using Cons [of "opEnd p"] by auto
qed

lemma takeWhile_built:
  "list_all P q \<Longrightarrow> a = [] \<or> \<not> P (hd a) \<Longrightarrow> takeWhile P (q @ a) = q \<and> dropWhile P (q @ a) = a"
  by (cases a) (auto simp: list_all_iff takeWhile_append2 dropWhile_append2)

lemma calloutStep_built:
  assumes "parseCalloutStart l = Some ty" "ty \<in> set tt"
    and "list_all isQuoted q" "a = [] \<or> \<not> isQuoted (hd a)"
  shows "calloutStep tt False gen n j l (q @ a) =
     (case (case dropWhile isBlank a of [] \<Rightarrow> None | x # _ \<Rightarrow> parseBlockId x) of
        Some b \<Rightarrow>
          (l # q @ takeWhile isBlank a @ [hd (dropWhile isBlank a)],
           Some \<lparr>ctype = ty, blockId = Some b,
                 bodyLines = trimTrailingBlankLines (map unquoteLine q), startLine = j,
                 quoteEndLine = j + 1 + length q,
                 idLine = Some (j + 1 + length q + length (takeWhile isBlank a))\<rparr>,
           n, j + 1 + length q + length (takeWhile isBlank a) + 1, tl (dropWhile isBlank a))
      | None \<Rightarrow>
          (l # q,
           Some \<lparr>ctype = ty, blockId = None,
                 bodyLines = trimTrailingBlankLines (map unquoteLine q), startLine = j,
                 quoteEndLine = j + 1 + length q, idLine = None\<rparr>,
           n, j + 1 + length q, a))"
  using assms(1,2) takeWhile_built [OF assms(3,4)]
  by (simp add: calloutStep_def Let_def split: option.splits)

lemma trimEnd_split: "xs = trimEnd xs @ rev (takeWhile isSpace (rev xs))"
proof -
  have "rev (takeWhile isSpace (rev xs) @ dropWhile isSpace (rev xs)) = rev (rev xs)"
    by (simp only: takeWhile_dropWhile_id)
  then have "rev (dropWhile isSpace (rev xs)) @ rev (takeWhile isSpace (rev xs)) = xs"
    by (simp only: rev_append rev_rev_ident)
  then show ?thesis by (simp only: trimEnd_def)
qed

lemma trimEnd_Nil: "trimEnd xs = [] \<Longrightarrow> list_all isSpace xs"
proof -
  assume "trimEnd xs = []"
  then have "xs = rev (takeWhile isSpace (rev xs))" using trimEnd_split [of xs] by simp
  then have "set xs \<subseteq> set (takeWhile isSpace (rev xs))" by (metis set_rev subset_refl)
  then show ?thesis by (auto simp: list_all_iff dest: set_takeWhileD)
qed

lemma trimStart_head: "trimStart l = c # r \<Longrightarrow> \<not> isSpace c"
  using hd_dropWhile [of isSpace l] by (simp add: trimStart_def)

lemma trim_Nil: "trim l = [] \<longleftrightarrow> trimStart l = []"
proof
  assume "trim l = []"
  then have "list_all isSpace (trimStart l)" by (simp add: trim_def trimEnd_Nil)
  then show "trimStart l = []"
    using trimStart_head [of l] by (cases "trimStart l") auto
next
  assume "trimStart l = []"
  then show "trim l = []" by (simp add: trim_def trimEnd_def)
qed

lemma trim_head: "trim l = c # r \<Longrightarrow> \<exists>r'. trimStart l = c # r'"
  using trimEnd_split [of "trimStart l"] by (auto simp: trim_def)

lemma blank_not_quoted: "isBlank l \<Longrightarrow> \<not> isQuoted l"
  by (simp add: isBlank_def isQuoted_def trim_Nil)

lemma blockId_not_quoted: "parseBlockId l = Some b \<Longrightarrow> \<not> isQuoted l \<and> \<not> isBlank l"
proof -
  assume a: "parseBlockId l = Some b"
  then obtain r where "trim l = CHR ''^'' # r"
    by (auto simp: parseBlockId_def Let_def split: list.splits if_splits)
  then show ?thesis using trim_head [of l "CHR ''^''" r]
    by (auto simp: isQuoted_def isBlank_def)
qed

lemma trackedStart_not_blank: "parseCalloutStart l = Some ty \<Longrightarrow> \<not> isBlank l"
proof -
  assume "parseCalloutStart l = Some ty"
  then obtain r where "l = CHR ''>'' # r"
    by (auto simp: parseCalloutStart_def split: list.splits if_splits)
  then have "trimStart l = l" by (simp add: trimStart_def isSpace_def)
  then show ?thesis using \<open>l = CHR ''>'' # r\<close> by (simp add: isBlank_def trim_Nil)
qed

lemma blank_untracked: "isBlank l \<Longrightarrow> \<not> isTrackedStart tt l"
  using trackedStart_not_blank by (auto simp: isTrackedStart_def split: option.splits)

lemma fit_starts:
  assumes "bodySpanOps (snd (scanCallouts tt a g n k ls)) ps" "p \<in> set ps"
  shows "k + 1 \<le> opStart p"
proof -
  obtain c where c: "c \<in> set (snd (scanCallouts tt a g n k ls))" "opStart p = startLine c + 1"
    using assms by (auto simp: bodySpanOps_def)
  have "k \<le> startLine c"
    using orderedFrom_bounds [OF scan_ordered c(1)] by simp
  then show ?thesis using c(2) by simp
qed

lemma fit_Nil: "bodySpanOps [] ps \<Longrightarrow> ps = []"
  by (cases ps) (auto simp: bodySpanOps_def)

lemma scan_blank_prefix:
  "snd (scanCallouts tt a g n k ls) =
   snd (scanCallouts tt a g n (k + length (takeWhile isBlank ls)) (dropWhile isBlank ls))"
proof -
  have "\<forall>x \<in> set (takeWhile isBlank ls). \<not> isTrackedStart tt x"
    by (auto dest: set_takeWhileD blank_untracked)
  from scan_skip_prefix [OF this, of a g n k "dropWhile isBlank ls"]
  show ?thesis by simp
qed

lemma replaceRanges_lead:
  assumes fit: "bodySpanOps (snd (scanCallouts tt a g n k (drop k L))) ps"
  shows "\<exists>R. replaceRanges k L ps =
           takeWhile isBlank (drop k L) @
           (case dropWhile isBlank (drop k L) of [] \<Rightarrow> [] | x # _ \<Rightarrow> x # R)"
proof (cases "dropWhile isBlank (drop k L)")
  case Nil
  have "snd (scanCallouts tt a g n k (drop k L)) =
        snd (scanCallouts tt a g n (k + length (takeWhile isBlank (drop k L))) [])"
    using scan_blank_prefix [of tt a g n k "drop k L"] by (simp only: Nil)
  then have "snd (scanCallouts tt a g n k (drop k L)) = []"
    by simp
  then have "ps = []" using fit fit_Nil by simp
  moreover have "takeWhile isBlank (drop k L) @ [] = drop k L"
    using takeWhile_dropWhile_id [of isBlank "drop k L"] by (simp only: Nil)
  ultimately have "replaceRanges k L ps =
           takeWhile isBlank (drop k L) @
           (case dropWhile isBlank (drop k L) of [] \<Rightarrow> [] | x # _ \<Rightarrow> x # [])"
    by (simp only: Nil list.case replaceRanges.simps)
  then show ?thesis by blast
next
  case (Cons x t)
  let ?b = "takeWhile isBlank (drop k L)"
  have fit': "bodySpanOps (snd (scanCallouts tt a g n (k + length ?b) (x # t))) ps"
    using fit scan_blank_prefix [of tt a g n k "drop k L"] Cons by simp
  have "\<forall>p \<in> set ps. k + length ?b + 1 \<le> opStart p"
    using fit_starts [OF fit'] by blast
  then have "replaceRanges k L ps =
          take (k + length ?b + 1 - k) (drop k L) @ replaceRanges (k + length ?b + 1) L ps"
    by (intro replaceRanges_skip) simp_all
  moreover have "drop k L = ?b @ x # t"
    using Cons takeWhile_dropWhile_id [of isBlank "drop k L"] by simp
  then have "take (k + length ?b + 1 - k) (drop k L) = ?b @ [x]"
    by (metis add.commute add_diff_cancel_left' append.assoc append_Cons append_Nil
        append_eq_conv_conj length_append_singleton Suc_eq_plus1 add.assoc)
  ultimately show ?thesis using Cons by simp
qed

lemma dropWhile_takeWhile_same: "dropWhile P (takeWhile P xs) = []"
  by (auto simp: dropWhile_eq_Nil_conv dest: set_takeWhileD)

lemma dropWhile_takeWhile_app:
  "\<not> P x \<Longrightarrow> dropWhile P (takeWhile P xs @ x # R) = x # R"
  by (induction xs) auto

lemma lead_found:
  assumes fit: "bodySpanOps (snd (scanCallouts tt a g n k (drop k L))) ps"
  shows "(case dropWhile isBlank (replaceRanges k L ps) of [] \<Rightarrow> None | x # _ \<Rightarrow> parseBlockId x)
       = (case dropWhile isBlank (drop k L) of [] \<Rightarrow> None | x # _ \<Rightarrow> parseBlockId x)"
proof -
  obtain R where R: "replaceRanges k L ps =
           takeWhile isBlank (drop k L) @
           (case dropWhile isBlank (drop k L) of [] \<Rightarrow> [] | x # _ \<Rightarrow> x # R)"
    using replaceRanges_lead [OF fit] by blast
  show ?thesis
  proof (cases "dropWhile isBlank (drop k L)")
    case Nil
    have "replaceRanges k L ps = takeWhile isBlank (drop k L)"
      using R by (simp only: Nil list.case append_Nil2)
    then have "dropWhile isBlank (replaceRanges k L ps) = []"
      by (simp only: dropWhile_takeWhile_same)
    then show ?thesis by (simp only: Nil list.case)
  next
    case (Cons x t)
    then have "\<not> isBlank x" using hd_dropWhile [of isBlank "drop k L"] by simp
    then have "dropWhile isBlank (takeWhile isBlank (drop k L) @ x # R) = x # R"
      by (rule dropWhile_takeWhile_app)
    then show ?thesis using R Cons by simp
  qed
qed

lemma lead_head:
  assumes fit: "bodySpanOps (snd (scanCallouts tt a g n k (drop k L))) ps"
    and nq: "drop k L = [] \<or> \<not> isQuoted (hd (drop k L))"
  shows "replaceRanges k L ps = [] \<or> \<not> isQuoted (hd (replaceRanges k L ps))"
proof -
  obtain R where R: "replaceRanges k L ps =
           takeWhile isBlank (drop k L) @
           (case dropWhile isBlank (drop k L) of [] \<Rightarrow> [] | x # _ \<Rightarrow> x # R)"
    using replaceRanges_lead [OF fit] by blast
  show ?thesis
  proof (cases "drop k L")
    case Nil
    then show ?thesis using R by simp
  next
    case (Cons y ys)
    have "hd (replaceRanges k L ps) = y"
    proof (cases "isBlank y")
      case True
      then show ?thesis using R Cons by simp
    next
      case False
      then show ?thesis using R Cons by simp
    qed
    then show ?thesis using nq Cons by simp
  qed
qed

lemma scan_False_Cons:
  assumes "calloutStep tt False g n i l rest = (emit, co, n', i', rest')"
  shows "snd (scanCallouts tt False g n i (l # rest)) =
         (case co of None \<Rightarrow> [] | Some c \<Rightarrow> [c]) @ snd (scanCallouts tt False g n' i' rest')"
  using scanCallouts_Cons [OF assms] by simp

lemma rescan_untracked:
  assumes dr: "drop i L = l # rest" and un: "\<not> isTrackedStart tt l"
    and fit: "bodySpanOps (snd (scanCallouts tt False g0 n0 i (drop i L))) ops"
    and ih: "\<And>j n. list_all2 (sameCallout ops)
                (snd (scanCallouts tt False g n j (replaceRanges (Suc i) L ops)))
                (snd (scanCallouts tt False g0 n0 (Suc i) (drop (Suc i) L)))"
  shows "list_all2 (sameCallout ops) (snd (scanCallouts tt False g n j (replaceRanges i L ops)))
           (snd (scanCallouts tt False g0 n0 i (drop i L)))"
proof -
  have rest: "rest = drop (Suc i) L" using dr by (metis drop_Suc tl_drop list.sel(3))
  have cs: "snd (scanCallouts tt False g0 n0 i (drop i L)) =
            snd (scanCallouts tt False g0 n0 (Suc i) (drop (Suc i) L))"
    using scan_False_Cons [OF calloutStep_untracked [OF un], of g0 n0 i rest] dr rest by simp
  have "\<forall>p \<in> set ops. Suc i \<le> opStart p"
    using fit_starts [OF fit] by auto
  then have "replaceRanges i L ops = take (Suc i - i) (drop i L) @ replaceRanges (Suc i) L ops"
    by (intro replaceRanges_skip) simp_all
  then have X: "replaceRanges i L ops = l # replaceRanges (Suc i) L ops"
    using dr by simp
  have "snd (scanCallouts tt False g n j (replaceRanges i L ops)) =
        snd (scanCallouts tt False g n (Suc j) (replaceRanges (Suc i) L ops))"
    using scan_False_Cons [OF calloutStep_untracked [OF un], of g n j "replaceRanges (Suc i) L ops"] X
    by simp
  then show ?thesis using ih [of n "Suc j"] cs by simp
qed

lemma takeWhile_blanks_app:
  "list_all isBlank blanks \<Longrightarrow> \<not> isBlank x \<Longrightarrow>
   takeWhile isBlank (blanks @ x # R) = blanks \<and> dropWhile isBlank (blanks @ x # R) = x # R"
  using takeWhile_built [of isBlank blanks "x # R"] by simp

lemma step_general:
  assumes ty: "parseCalloutStart l = Some ty" "ty \<in> set tt"
    and q': "list_all isQuoted q'"
    and lead: "leadOk lead fo X"
  shows "\<exists>c'. calloutStep tt False g n j l (q' @ lead @ X) =
                 (l # q' @ lead, Some c', n, j + 1 + length q' + length lead, X) \<and>
              ctype c' = ty \<and> blockId c' = fo \<and>
              bodyLines c' = trimTrailingBlankLines (map unquoteLine q') \<and>
              startLine c' = j \<and> quoteEndLine c' = j + 1 + length q'"
proof -
  consider (withId) "\<exists>blanks x b. lead = blanks @ [x] \<and> list_all isBlank blanks \<and>
                        parseBlockId x = Some b \<and> fo = Some b"
    | (noId) "lead = [] \<and> fo = None \<and> (X = [] \<or> \<not> isQuoted (hd X)) \<and> foundId X = None"
    using lead unfolding leadOk_def by (rule disjE)
  then show ?thesis
  proof cases
    case withId
    then obtain blanks x b where l: "lead = blanks @ [x]" and bl: "list_all isBlank blanks"
      and x: "parseBlockId x = Some b" and fo: "fo = Some b"
      by (elim exE conjE)
    have nb: "\<not> isBlank x" and nq: "\<not> isQuoted x" using blockId_not_quoted [OF x] by simp_all
    have tw: "takeWhile isBlank (lead @ X) = blanks" "dropWhile isBlank (lead @ X) = x # X"
      using takeWhile_blanks_app [OF bl nb, of X] l by simp_all
    have "\<not> isQuoted (hd (lead @ X))"
    proof (cases blanks)
      case Nil
      then show ?thesis using l nq by simp
    next
      case (Cons y ys)
      then have "isBlank y" using bl by simp
      then show ?thesis using l Cons blank_not_quoted by simp
    qed
    then have a: "lead @ X = [] \<or> \<not> isQuoted (hd (lead @ X))" by (rule disjI2)
    have "calloutStep tt False g n j l (q' @ lead @ X) =
          (l # q' @ blanks @ [x],
           Some \<lparr>ctype = ty, blockId = Some b,
                 bodyLines = trimTrailingBlankLines (map unquoteLine q'), startLine = j,
                 quoteEndLine = j + 1 + length q',
                 idLine = Some (j + 1 + length q' + length blanks)\<rparr>,
           n, j + 1 + length q' + length blanks + 1, X)"
      using calloutStep_built [OF ty q' a, of g n j]
      by (simp only: tw list.case x option.case list.sel)
    then show ?thesis
      by (intro exI [of _ "\<lparr>ctype = ty, blockId = Some b,
                 bodyLines = trimTrailingBlankLines (map unquoteLine q'), startLine = j,
                 quoteEndLine = j + 1 + length q',
                 idLine = Some (j + 1 + length q' + length blanks)\<rparr>"])
         (simp add: l fo)
  next
    case noId
    then have l: "lead = []" and fo: "fo = None" and X: "X = [] \<or> \<not> isQuoted (hd X)"
      and f: "(case dropWhile isBlank X of [] \<Rightarrow> None | x # _ \<Rightarrow> parseBlockId x) = None"
      by (simp_all only: foundId_def)
    have "calloutStep tt False g n j l (q' @ X) =
          (l # q',
           Some \<lparr>ctype = ty, blockId = None,
                 bodyLines = trimTrailingBlankLines (map unquoteLine q'), startLine = j,
                 quoteEndLine = j + 1 + length q', idLine = None\<rparr>,
           n, j + 1 + length q', X)"
      using calloutStep_built [OF ty q' X, of g n j]
      by (simp only: f option.case)
    then show ?thesis
      by (intro exI [of _ "\<lparr>ctype = ty, blockId = None,
                 bodyLines = trimTrailingBlankLines (map unquoteLine q'), startLine = j,
                 quoteEndLine = j + 1 + length q', idLine = None\<rparr>"])
         (simp add: l fo)
  qed
qed

lemma rest_decomp:
  "\<exists>lead fo rest'. dropWhile isQuoted rest = lead @ rest' \<and> leadOk lead fo rest'"
proof (cases "foundId (dropWhile isQuoted rest)")
  case None
  have "dropWhile isQuoted rest = [] \<or> \<not> isQuoted (hd (dropWhile isQuoted rest))"
    using hd_dropWhile [of isQuoted rest] by blast
  then have "leadOk [] None (dropWhile isQuoted rest)"
    using None by (simp add: leadOk_def)
  then show ?thesis by (metis append_Nil)
next
  case (Some b)
  let ?a = "dropWhile isQuoted rest"
  obtain x t where xt: "dropWhile isBlank ?a = x # t" and x: "parseBlockId x = Some b"
    using Some by (auto simp: foundId_def split: list.splits)
  have "list_all isBlank (takeWhile isBlank ?a)"
    by (auto simp: list_all_iff dest: set_takeWhileD)
  then have "leadOk (takeWhile isBlank ?a @ [x]) (Some b) t"
    using x by (auto simp: leadOk_def)
  moreover have "?a = (takeWhile isBlank ?a @ [x]) @ t"
    using takeWhile_dropWhile_id [of isBlank ?a] xt by simp
  ultimately show ?thesis by blast
qed

lemma ops_split:
  assumes fit: "bodySpanOps (c # cs_rest) ops"
    and c: "startLine c = i" "quoteEndLine c = i + 1 + length q"
      "bodyLines c = trimTrailingBlankLines (map unquoteLine q)"
    and q: "list_all isQuoted q"
    and rest: "\<forall>d \<in> set cs_rest. i' \<le> startLine d" "i + 1 + length q \<le> i'"
    and dr: "drop i L = l # q @ after"
  shows "\<exists>q' ps'. replaceRanges i L ops = l # q' @ replaceRanges (i + 1 + length q) L ps' \<and>
           list_all isQuoted q' \<and> bodySpanOps cs_rest ps' \<and>
           trimTrailingBlankLines (map unquoteLine q') = newBody ops c \<and>
           (\<forall>d \<in> set cs_rest. newBody ops d = newBody ps' d)"
proof -
  have sorted: "sorted_wrt (\<lambda>a b. opStart a < opStart b) ops"
    and mem: "\<And>p. p \<in> set ops \<Longrightarrow> list_all isQuoted (opInsert p) \<and>
        (\<exists>d \<in> set (c # cs_rest). opStart p = startLine d + 1 \<and> opEnd p = quoteEndLine d)"
    using fit by (auto simp: bodySpanOps_def)
  have later: "p \<in> set ops \<Longrightarrow> opStart p \<noteq> i + 1 \<Longrightarrow>
       (\<exists>d \<in> set cs_rest. opStart p = startLine d + 1 \<and> opEnd p = quoteEndLine d) \<and> i' + 1 \<le> opStart p" for p
    using mem [of p] c(1) rest(1) by auto
  have here: "p \<in> set ops \<Longrightarrow> opStart p = i + 1 \<Longrightarrow> opEnd p = i + 1 + length q" for p
    using mem [of p] c(1,2) rest by fastforce
  show ?thesis
  proof (cases "\<exists>p ps. ops = p # ps \<and> opStart p = i + 1")
    case True
    then obtain p ps where ops: "ops = p # ps" and sp: "opStart p = i + 1" by blast
    have ep: "opEnd p = i + 1 + length q" using here [of p] ops sp by simp
    have gt: "\<forall>x \<in> set ps. opStart x \<noteq> i + 1"
      using sorted ops sp by auto
    have "replaceRanges i L ops = l # opInsert p @ replaceRanges (i + 1 + length q) L ps"
      using ops sp ep dr by simp
    moreover have "list_all isQuoted (opInsert p)" using mem [of p] ops by simp
    moreover have "bodySpanOps cs_rest ps"
      using sorted ops gt later mem by (auto simp: bodySpanOps_def)
    moreover have "trimTrailingBlankLines (map unquoteLine (opInsert p)) = newBody ops c"
      using ops sp c(1) by (simp add: newBody_def)
    moreover have "\<forall>d \<in> set cs_rest. newBody ops d = newBody ps d"
      using ops sp rest by (auto simp: newBody_def)
    ultimately show ?thesis by blast
  next
    case False
    have none: "\<forall>p \<in> set ops. opStart p \<noteq> i + 1"
    proof (cases ops)
      case Nil
      then show ?thesis by simp
    next
      case (Cons p ps)
      then have "opStart p \<noteq> i + 1" using False by blast
      then have "i' + 1 \<le> opStart p" using later [of p] Cons by simp
      then have "\<forall>x \<in> set ps. i + 1 < opStart x"
        using sorted Cons rest(2) by auto
      then show ?thesis using Cons \<open>opStart p \<noteq> i + 1\<close> by auto
    qed
    then have ge: "\<forall>p \<in> set ops. i + 1 + length q \<le> opStart p"
      using later rest(2) by fastforce
    have "replaceRanges i L ops =
          take (i + 1 + length q - i) (drop i L) @ replaceRanges (i + 1 + length q) L ops"
      using ge by (intro replaceRanges_skip) simp_all
    then have "replaceRanges i L ops = l # q @ replaceRanges (i + 1 + length q) L ops"
      using dr by simp
    moreover have "bodySpanOps cs_rest ops"
      using sorted none later mem by (auto simp: bodySpanOps_def)
    moreover have "find (\<lambda>p. opStart p = startLine c + 1) ops = None"
      using none c(1) by (simp add: find_None_iff)
    then have "trimTrailingBlankLines (map unquoteLine q) = newBody ops c"
      using c(3) by (simp add: newBody_def)
    ultimately show ?thesis using q by blast
  qed
qed

lemma drop_after_prefix: "drop i L = pre @ r \<Longrightarrow> drop (i + length pre) L = r"
proof -
  assume a: "drop i L = pre @ r"
  have "drop (i + length pre) L = drop (length pre) (drop i L)"
    by (simp add: add.commute)
  then show ?thesis using a by simp
qed

lemma leadOk_transfer:
  assumes lo: "leadOk lead fo rest'"
    and fit: "bodySpanOps (snd (scanCallouts tt a g n k (drop k L))) ps"
    and dr: "drop k L = rest'"
  shows "leadOk lead fo (replaceRanges k L ps)"
proof -
  have f: "foundId (replaceRanges k L ps) = foundId rest'"
    using lead_found [OF fit] dr by (simp add: foundId_def)
  have h: "rest' = [] \<or> \<not> isQuoted (hd rest') \<Longrightarrow>
           replaceRanges k L ps = [] \<or> \<not> isQuoted (hd (replaceRanges k L ps))"
    using lead_head [OF fit] dr by simp
  show ?thesis
    using lo f h unfolding leadOk_def by auto
qed

lemma rescan_tracked:
  assumes dr: "drop i L = l # rest" and ty: "parseCalloutStart l = Some ty" "ty \<in> set tt"
    and fit: "bodySpanOps (snd (scanCallouts tt False g0 n0 i (drop i L))) ops"
    and ih: "\<And>k j n ps. i < k \<Longrightarrow>
               bodySpanOps (snd (scanCallouts tt False g0 n0 k (drop k L))) ps \<Longrightarrow>
               list_all2 (sameCallout ps)
                 (snd (scanCallouts tt False g n j (replaceRanges k L ps)))
                 (snd (scanCallouts tt False g0 n0 k (drop k L)))"
  shows "list_all2 (sameCallout ops) (snd (scanCallouts tt False g n j (replaceRanges i L ops)))
           (snd (scanCallouts tt False g0 n0 i (drop i L)))"
proof -
  let ?q = "takeWhile isQuoted rest"
  obtain lead fo rest' where a: "dropWhile isQuoted rest = lead @ rest'"
    and lo: "leadOk lead fo rest'"
    using rest_decomp by blast
  have restq: "rest = ?q @ lead @ rest'"
    using takeWhile_dropWhile_id [of isQuoted rest] a by simp
  have q: "list_all isQuoted ?q"
    by (auto simp: list_all_iff dest: set_takeWhileD)
  define qE where "qE = i + 1 + length ?q"
  define i' where "i' = qE + length lead"
  obtain c where st: "calloutStep tt False g0 n0 i l (?q @ lead @ rest') =
                        (l # ?q @ lead, Some c, n0, i + 1 + length ?q + length lead, rest')"
    and cf: "ctype c = ty" "blockId c = fo"
      "bodyLines c = trimTrailingBlankLines (map unquoteLine ?q)"
      "startLine c = i" "quoteEndLine c = i + 1 + length ?q"
    using step_general [OF ty q lo, of g0 n0 i] by blast
  have drL: "drop i L = l # ?q @ lead @ rest'" using dr restq by simp
  have "drop i L = (l # ?q @ lead) @ rest'" using drL by simp
  then have "drop (i + length (l # ?q @ lead)) L = rest'" by (rule drop_after_prefix)
  then have dri': "drop i' L = rest'"
    by (simp add: i'_def qE_def add.assoc)
  have "drop i L = (l # ?q) @ lead @ rest'" using drL by simp
  then have "drop (i + length (l # ?q)) L = lead @ rest'" by (rule drop_after_prefix)
  then have drq: "drop qE L = lead @ rest'"
    by (simp add: qE_def)
  let ?csr = "snd (scanCallouts tt False g0 n0 i' (drop i' L))"
  have cs: "snd (scanCallouts tt False g0 n0 i (drop i L)) = c # ?csr"
    using scan_False_Cons [OF st] drL dri' by (simp add: i'_def qE_def)
  have lb: "\<forall>d \<in> set ?csr. i' \<le> startLine d"
    using orderedFrom_bounds [OF scan_ordered] by blast
  have fitc: "bodySpanOps (c # ?csr) ops" using fit cs by simp
  have le: "i + 1 + length ?q \<le> i'" by (simp add: i'_def qE_def)
  obtain q' ps' where X: "replaceRanges i L ops = l # q' @ replaceRanges (i + 1 + length ?q) L ps'"
    and q': "list_all isQuoted q'" and fit': "bodySpanOps ?csr ps'"
    and nb: "trimTrailingBlankLines (map unquoteLine q') = newBody ops c"
    and nbs: "\<forall>d \<in> set ?csr. newBody ops d = newBody ps' d"
    using ops_split [OF fitc cf(4,5,3) q lb le drL] by blast
  define X' where "X' = replaceRanges i' L ps'"
  have "\<forall>p \<in> set ps'. i' \<le> opStart p"
    using fit_starts [OF fit'] by (auto dest: Suc_leD)
  then have "replaceRanges qE L ps' = take (i' - qE) (drop qE L) @ replaceRanges i' L ps'"
    by (intro replaceRanges_skip) (simp_all add: i'_def)
  then have X2: "replaceRanges i L ops = l # q' @ lead @ X'"
    using X drq by (simp add: X'_def i'_def qE_def)
  have lo': "leadOk lead fo X'"
    unfolding X'_def using lo fit' dri' by (rule leadOk_transfer)
  obtain c' where st': "calloutStep tt False g n j l (q' @ lead @ X') =
                        (l # q' @ lead, Some c', n, j + 1 + length q' + length lead, X')"
    and c'f: "ctype c' = ty" "blockId c' = fo"
      "bodyLines c' = trimTrailingBlankLines (map unquoteLine q')"
    using step_general [OF ty q' lo', of g n j] by blast
  have new: "snd (scanCallouts tt False g n j (replaceRanges i L ops)) =
             c' # snd (scanCallouts tt False g n (j + 1 + length q' + length lead) X')"
    using scan_False_Cons [OF st'] X2 by simp
  have "i < i'" by (simp add: i'_def qE_def)
  then have "list_all2 (sameCallout ps')
               (snd (scanCallouts tt False g n (j + 1 + length q' + length lead) X')) ?csr"
    unfolding X'_def using fit' by (rule ih)
  then have "list_all2 (sameCallout ops)
               (snd (scanCallouts tt False g n (j + 1 + length q' + length lead) X')) ?csr"
  proof (rule list.rel_mono_strong)
    fix x d
    assume "d \<in> set ?csr" "sameCallout ps' x d"
    then show "sameCallout ops x d" using nbs by (simp add: sameCallout_def)
  qed
  moreover have "sameCallout ops c' c"
    using cf c'f nb by (simp add: sameCallout_def)
  ultimately show ?thesis using new cs by simp
qed

lemma rescan:
  "bodySpanOps (snd (scanCallouts tt False g0 n0 i (drop i L))) ops \<Longrightarrow>
   list_all2 (sameCallout ops) (snd (scanCallouts tt False g n j (replaceRanges i L ops)))
     (snd (scanCallouts tt False g0 n0 i (drop i L)))"
proof (induction "length L - i" arbitrary: i j ops n rule: less_induct)
  case less
  show ?case
  proof (cases "drop i L")
    case Nil
    then have "ops = []" using less.prems fit_Nil by simp
    then show ?thesis using Nil by simp
  next
    case (Cons l rest)
    then have lt: "i < length L" by (cases "i < length L") simp_all
    have ih: "list_all2 (sameCallout ps)
                 (snd (scanCallouts tt False g n j (replaceRanges k L ps)))
                 (snd (scanCallouts tt False g0 n0 k (drop k L)))"
      if "i < k" "bodySpanOps (snd (scanCallouts tt False g0 n0 k (drop k L))) ps" for k j n ps
      using less.hyps [of k ps n j] that lt by simp
    show ?thesis
    proof (cases "isTrackedStart tt l")
      case False
      show ?thesis
        using Cons False less.prems
      proof (rule rescan_untracked)
        fix j n
        have "snd (scanCallouts tt False g0 n0 i (drop i L)) =
              snd (scanCallouts tt False g0 n0 (Suc i) (drop (Suc i) L))"
          using scan_False_Cons [OF calloutStep_untracked [OF False], of g0 n0 i rest] Cons
          by (metis append_Nil drop_Suc list.sel(3) option.simps(4) tl_drop Suc_eq_plus1)
        then have "bodySpanOps (snd (scanCallouts tt False g0 n0 (Suc i) (drop (Suc i) L))) ops"
          using less.prems by simp
        then show "list_all2 (sameCallout ops)
                (snd (scanCallouts tt False g n j (replaceRanges (Suc i) L ops)))
                (snd (scanCallouts tt False g0 n0 (Suc i) (drop (Suc i) L)))"
          by (intro ih) simp_all
      qed
    next
      case True
      then obtain ty where ty: "parseCalloutStart l = Some ty" "ty \<in> set tt"
        by (auto simp: isTrackedStart_def split: option.splits)
      show ?thesis
        using Cons ty less.prems ih by (rule rescan_tracked)
    qed
  qed
qed

lemma calloutStep_insert:
  assumes "parseCalloutStart l = Some ty" "ty \<in> set tt"
    and "foundId (dropWhile isQuoted rest) = None"
  shows "calloutStep tt True gen n i l rest =
     (l # takeWhile isQuoted rest @ blankIfNeeded (dropWhile isQuoted rest) @ [CHR ''^'' # gen n],
      Some \<lparr>ctype = ty, blockId = Some (gen n),
            bodyLines = trimTrailingBlankLines (map unquoteLine (takeWhile isQuoted rest)),
            startLine = i, quoteEndLine = i + 1 + length (takeWhile isQuoted rest),
            idLine = Some (i + 1 + length (takeWhile isQuoted rest) +
                           length (blankIfNeeded (dropWhile isQuoted rest)))\<rparr>,
      n + 1,
      i + 1 + length (takeWhile isQuoted rest) + length (blankIfNeeded (dropWhile isQuoted rest)) + 1,
      blankIfNeeded (dropWhile isQuoted rest) @ dropWhile isQuoted rest)"
  using assms by (simp add: calloutStep_def Let_def foundId_def blankIfNeeded_def)

lemma calloutStep_found:
  assumes "foundId (dropWhile isQuoted rest) \<noteq> None"
  shows "calloutStep tt True gen n i l rest = calloutStep tt False gen n i l rest"
  using assms by (auto simp: calloutStep_def Let_def foundId_def split: option.splits)

lemma calloutStep_found_shape:
  assumes "parseCalloutStart l = Some ty" "ty \<in> set tt"
    and "foundId (dropWhile isQuoted rest) = Some b"
  shows "\<exists>emit c i' rest'. calloutStep tt a gen n i l rest = (emit, Some c, n, i', rest') \<and>
           blockId c = Some b \<and> length rest' < length (l # rest) \<and>
           (\<forall>a' gen' n' j. \<exists>emit' c' j'. calloutStep tt a' gen' n' j l rest = (emit', Some c', n', j', rest') \<and>
              blockId c' = Some b)"
  using assms length_dropWhile_le [of isQuoted rest]
    length_dropWhile_le [of isBlank "dropWhile isQuoted rest"]
  by (auto simp: calloutStep_def Let_def foundId_def split: option.splits list.splits)

lemma calloutStep_none_False:
  assumes "parseCalloutStart l = Some ty" "ty \<in> set tt"
    and "foundId (dropWhile isQuoted rest) = None"
  shows "\<exists>emit c i'. calloutStep tt False gen n i l rest = (emit, Some c, n, i', dropWhile isQuoted rest) \<and>
           blockId c = None"
  using assms by (simp add: calloutStep_def Let_def foundId_def)

lemma scan_blank_line:
  "snd (scanCallouts tt a gen n i ([] # ls)) = snd (scanCallouts tt a gen n (i + 1) ls)"
proof -
  have "\<not> isTrackedStart tt []" by (simp add: isTrackedStart_def parseCalloutStart_def)
  from scanCallouts_Cons [OF calloutStep_untracked [OF this]] show ?thesis by simp
qed

lemma scan_blankIfNeeded:
  "snd (scanCallouts tt a gen n i (blankIfNeeded x @ ls)) =
   snd (scanCallouts tt a gen n (i + length (blankIfNeeded x)) ls)"
  by (simp add: blankIfNeeded_def scan_blank_line del: scanCallouts.simps)

lemma scan_ids_assigned:
  "map blockId (snd (scanCallouts tt True gen n i ls)) =
   assignIds gen n (map blockId (snd (scanCallouts tt False gen' n' j ls)))"
proof (induction "length ls" arbitrary: ls n i n' j rule: less_induct)
  case less
  show ?case
  proof (cases ls)
    case Nil
    then show ?thesis by simp
  next
    case (Cons l rest)
    show ?thesis
    proof (cases "isTrackedStart tt l")
      case False
      have "length rest < length ls" using Cons by simp
      from less.hyps [OF this] show ?thesis
        using scanCallouts_Cons [OF calloutStep_untracked [OF False]] Cons by simp
    next
      case True
      then obtain ty where ty: "parseCalloutStart l = Some ty" "ty \<in> set tt"
        by (auto simp: isTrackedStart_def split: option.splits)
      show ?thesis
      proof (cases "foundId (dropWhile isQuoted rest)")
        case None
        let ?a = "dropWhile isQuoted rest"
        note sT = calloutStep_insert [OF ty None, of gen n i]
        obtain emit c i' where sF: "calloutStep tt False gen' n' j l rest = (emit, Some c, n', i', ?a)"
          and c: "blockId c = None"
          using calloutStep_none_False [OF ty None] by blast
        have "length ?a < length ls" using Cons length_dropWhile_le [of isQuoted rest] by simp
        from less.hyps [OF this] show ?thesis
          using scanCallouts_Cons [OF sT] scanCallouts_Cons [OF sF] c Cons
          by (simp add: scan_blankIfNeeded)
      next
        case (Some b)
        obtain emit c i' rest' where sT: "calloutStep tt True gen n i l rest = (emit, Some c, n, i', rest')"
          and c: "blockId c = Some b" and len: "length rest' < length (l # rest)"
          and other: "\<forall>a' gen' n' j. \<exists>emit' c' j'. calloutStep tt a' gen' n' j l rest = (emit', Some c', n', j', rest') \<and>
              blockId c' = Some b"
          using calloutStep_found_shape [OF ty Some, of True gen n i] by blast
        obtain emit' c' j' where sF: "calloutStep tt False gen' n' j l rest = (emit', Some c', n', j', rest')"
          and c': "blockId c' = Some b"
          using other by blast
        have "length rest' < length ls" using len Cons by simp
        from less.hyps [OF this] show ?thesis
          using scanCallouts_Cons [OF sT] scanCallouts_Cons [OF sF] c c' Cons
          by simp
      qed
    qed
  qed
qed

lemma idChar_not_space: "isIdChar c \<Longrightarrow> \<not> isSpace c"
  by (auto simp: isIdChar_def isSpace_def Let_def)

lemma trimEnd_id: "s \<noteq> [] \<Longrightarrow> \<not> isSpace (last s) \<Longrightarrow> trimEnd s = s"
  by (cases s rule: rev_cases) (simp_all add: trimEnd_def)

lemma parseBlockId_caret:
  assumes "validId s"
  shows "parseBlockId (CHR ''^'' # s) = Some s"
proof -
  have ne: "s \<noteq> []" and all: "list_all isIdChar s" using assms by (simp_all add: validId_def)
  have "isIdChar (last s)" using ne all by (simp add: list_all_iff)
  then have "\<not> isSpace (last (CHR ''^'' # s))" using ne idChar_not_space by simp
  then have "trimEnd (CHR ''^'' # s) = CHR ''^'' # s" by (intro trimEnd_id) simp_all
  moreover have "trimStart (CHR ''^'' # s) = CHR ''^'' # s"
    by (simp add: trimStart_def isSpace_def)
  ultimately have t: "trim (CHR ''^'' # s) = CHR ''^'' # s" by (simp add: trim_def)
  have tw: "takeWhile isIdChar s = s" "dropWhile isIdChar s = []"
    using all by (simp_all add: list_all_iff)
  show ?thesis by (simp add: parseBlockId_def Let_def t tw ne)
qed

lemma step_withId:
  assumes ty: "parseCalloutStart l = Some ty" "ty \<in> set tt"
    and q': "list_all isQuoted q'"
    and bl: "list_all isBlank blanks" and x: "parseBlockId x = Some b"
  shows "calloutStep tt a g n j l (q' @ blanks @ [x] @ X) =
          (l # q' @ blanks @ [x],
           Some \<lparr>ctype = ty, blockId = Some b,
                 bodyLines = trimTrailingBlankLines (map unquoteLine q'), startLine = j,
                 quoteEndLine = j + 1 + length q',
                 idLine = Some (j + 1 + length q' + length blanks)\<rparr>,
           n, j + 1 + length q' + length blanks + 1, X)"
proof -
  have nb: "\<not> isBlank x" and nq: "\<not> isQuoted x" using blockId_not_quoted [OF x] by simp_all
  have tw: "takeWhile isBlank (blanks @ [x] @ X) = blanks"
           "dropWhile isBlank (blanks @ [x] @ X) = x # X"
    using takeWhile_blanks_app [OF bl nb, of X] by simp_all
  have "\<not> isQuoted (hd (blanks @ [x] @ X))"
  proof (cases blanks)
    case Nil
    then show ?thesis using nq by simp
  next
    case (Cons y ys)
    then have "isBlank y" using bl by simp
    then show ?thesis using Cons blank_not_quoted by simp
  qed
  then have a: "blanks @ [x] @ X = [] \<or> \<not> isQuoted (hd (blanks @ [x] @ X))" by (rule disjI2)
  have f: "calloutStep tt False g n j l (q' @ blanks @ [x] @ X) =
          (l # q' @ blanks @ [x],
           Some \<lparr>ctype = ty, blockId = Some b,
                 bodyLines = trimTrailingBlankLines (map unquoteLine q'), startLine = j,
                 quoteEndLine = j + 1 + length q',
                 idLine = Some (j + 1 + length q' + length blanks)\<rparr>,
           n, j + 1 + length q' + length blanks + 1, X)"
    using calloutStep_built [OF ty q' a, of g n j]
    by (simp only: tw list.case x option.case list.sel)
  show ?thesis
  proof (cases a)
    case False
    then show ?thesis using f by simp
  next
    case True
    have "calloutStep tt True g n j l (q' @ blanks @ [x] @ X) =
          (l # q' @ blanks @ [x],
           Some \<lparr>ctype = ty, blockId = Some b,
                 bodyLines = trimTrailingBlankLines (map unquoteLine q'), startLine = j,
                 quoteEndLine = j + 1 + length q',
                 idLine = Some (j + 1 + length q' + length blanks)\<rparr>,
           n, j + 1 + length q' + length blanks + 1, X)"
      using f by (rule calloutStep_has_id) simp
    then show ?thesis using True by simp
  qed
qed

lemma step_True_output:
  assumes valid: "\<forall>k. validId (gen k)"
    and st: "calloutStep tt True gen n i l rest = (emit, co, n1, i1, rest1)"
  shows "calloutStep tt a' gen' n' i l (tl emit @ X) = (emit, co, n', i1, X) \<and> emit \<noteq> [] \<and> hd emit = l"
proof (cases "isTrackedStart tt l")
  case False
  then show ?thesis using st by (auto simp: calloutStep_untracked)
next
  case True
  then obtain ty where ty: "parseCalloutStart l = Some ty" "ty \<in> set tt"
    by (auto simp: isTrackedStart_def split: option.splits)
  let ?q = "takeWhile isQuoted rest"
  let ?a = "dropWhile isQuoted rest"
  have q: "list_all isQuoted ?q" by (auto simp: list_all_iff dest: set_takeWhileD)
  show ?thesis
  proof (cases "foundId ?a")
    case None
    have bl: "list_all isBlank (blankIfNeeded ?a)"
      by (simp add: blankIfNeeded_def isBlank_def trim_def trimStart_def trimEnd_def)
    have x: "parseBlockId (CHR ''^'' # gen n) = Some (gen n)"
      using valid by (simp add: parseBlockId_caret)
    show ?thesis
      using st step_withId [OF ty q bl x, of a' gen' n' i X]
      by (auto simp: calloutStep_insert [OF ty None] add.assoc)
  next
    case (Some b)
    then obtain x t where xt: "dropWhile isBlank ?a = x # t" and x: "parseBlockId x = Some b"
      by (auto simp: foundId_def split: list.splits)
    have bl: "list_all isBlank (takeWhile isBlank ?a)"
      by (auto simp: list_all_iff dest: set_takeWhileD)
    have "?a = takeWhile isBlank ?a @ [x] @ t"
      using takeWhile_dropWhile_id [of isBlank ?a] xt by simp
    then have rest: "rest = ?q @ takeWhile isBlank ?a @ [x] @ t"
      using takeWhile_dropWhile_id [of isQuoted rest] by simp
    have "calloutStep tt True gen n i l rest =
          (l # ?q @ takeWhile isBlank ?a @ [x],
           Some \<lparr>ctype = ty, blockId = Some b,
                 bodyLines = trimTrailingBlankLines (map unquoteLine ?q), startLine = i,
                 quoteEndLine = i + 1 + length ?q,
                 idLine = Some (i + 1 + length ?q + length (takeWhile isBlank ?a))\<rparr>,
           n, i + 1 + length ?q + length (takeWhile isBlank ?a) + 1, t)"
      using step_withId [OF ty q bl x, of True gen n i t] rest by simp
    then show ?thesis
      using st step_withId [OF ty q bl x, of a' gen' n' i X] by auto
  qed
qed

lemma rescan_patched:
  assumes valid: "\<forall>k. validId (gen k)"
  shows "scanCallouts tt a' gen' n' i (fst (scanCallouts tt True gen n i ls)) =
         scanCallouts tt True gen n i ls"
proof (induction "scanMeasure ls" arbitrary: ls n i n' rule: less_induct)
  case less
  show ?case
  proof (cases ls)
    case Nil
    then show ?thesis by simp
  next
    case (Cons l rest)
    obtain emit co n1 i1 rest1 where st: "calloutStep tt True gen n i l rest = (emit, co, n1, i1, rest1)"
      by (metis prod_cases5)
    let ?out1 = "fst (scanCallouts tt True gen n1 i1 rest1)"
    have "scanMeasure rest1 < scanMeasure ls"
      using calloutStep_decreases [OF st] Cons by simp
    then have ih: "scanCallouts tt a' gen' n' i1 ?out1 = scanCallouts tt True gen n1 i1 rest1"
      by (rule less.hyps)
    have so: "calloutStep tt a' gen' n' i l (tl emit @ ?out1) = (emit, co, n', i1, ?out1)"
      and ne: "emit \<noteq> []" "hd emit = l"
      using step_True_output [OF valid st] by simp_all
    have out: "fst (scanCallouts tt True gen n i ls) = l # tl emit @ ?out1"
      using scanCallouts_Cons [OF st] Cons ne by (cases emit) simp_all
    show ?thesis
      unfolding out
      using scanCallouts_Cons [OF so] scanCallouts_Cons [OF st] ih Cons ne
      by (cases emit) (simp_all del: scanCallouts.simps)
  qed
qed

lemma plain_Nil [simp]: "plain []"
  by (simp add: plain_def)

lemma idChar_plain: "isIdChar c \<Longrightarrow> c \<noteq> LF \<and> c \<noteq> CR"
  by (auto simp: isIdChar_def LF_def CR_def Let_def)

lemma validId_plain: "validId s \<Longrightarrow> plain (CHR ''^'' # s)"
  using idChar_plain by (auto simp: validId_def plain_def list_all_iff LF_def CR_def)

lemma calloutStep_plain:
  assumes "calloutStep tt a gen n i l rest = (emit, co, n1, i1, rest1)"
    and "\<forall>x \<in> set (l # rest). plain x" and "plain (CHR ''^'' # gen n)"
  shows "\<forall>x \<in> set emit \<union> set rest1. plain x"
proof (cases "isTrackedStart tt l")
  case False
  then show ?thesis using assms by (auto simp: calloutStep_untracked)
next
  case True
  then obtain ty where ty: "parseCalloutStart l = Some ty" "ty \<in> set tt"
    by (auto simp: isTrackedStart_def split: option.splits)
  let ?q = "takeWhile isQuoted rest"
  let ?a = "dropWhile isQuoted rest"
  have pq: "\<forall>x \<in> set ?q. plain x" and pa: "\<forall>x \<in> set ?a. plain x"
    using assms(2) by (auto dest: set_takeWhileD set_dropWhileD)
  have pb: "\<forall>x \<in> set (blankIfNeeded ?a). plain x"
    by (simp add: blankIfNeeded_def)
  show ?thesis
  proof (cases "foundId ?a")
    case None
    show ?thesis
    proof (cases a)
      case True
      then have "emit = l # ?q @ blankIfNeeded ?a @ [CHR ''^'' # gen n]"
        and "rest1 = blankIfNeeded ?a @ ?a"
        using assms(1) by (simp_all add: calloutStep_insert [OF ty None])
      then show ?thesis
        using assms(2,3) pq pa pb by auto
    next
      case False
      then have "emit @ rest1 = l # rest"
        using calloutStep_False [of tt gen n i l rest emit co n1 i1 rest1] assms(1) by simp
      then have "set emit \<union> set rest1 = set (l # rest)"
        by (metis set_append)
      then show ?thesis using assms(2) by simp
    qed
  next
    case (Some b)
    have eq: "calloutStep tt a gen n i l rest = calloutStep tt False gen n i l rest"
      using Some calloutStep_found [of rest tt gen n i l] by (cases a) simp_all
    have "emit @ rest1 = l # rest"
      using calloutStep_False [of tt gen n i l rest emit co n1 i1 rest1] assms(1) eq by simp
    then have "set emit \<union> set rest1 = set (l # rest)"
      by (metis set_append)
    then show ?thesis using assms(2) by simp
  qed
qed

lemma scan_out_plain:
  assumes "\<forall>k. plain (CHR ''^'' # gen k)"
  shows "\<forall>x \<in> set ls. plain x \<Longrightarrow> \<forall>x \<in> set (fst (scanCallouts tt a gen n i ls)). plain x"
proof (induction "scanMeasure ls" arbitrary: ls n i rule: less_induct)
  case less
  show ?case
  proof (cases ls)
    case Nil
    then show ?thesis by simp
  next
    case (Cons l rest)
    obtain emit co n1 i1 rest1 where st: "calloutStep tt a gen n i l rest = (emit, co, n1, i1, rest1)"
      by (metis prod_cases5)
    have pl: "\<forall>x \<in> set emit \<union> set rest1. plain x"
      using calloutStep_plain [OF st] less.prems Cons assms by simp
    have "scanMeasure rest1 < scanMeasure ls"
      using calloutStep_decreases [OF st] Cons by simp
    then have "\<forall>x \<in> set (fst (scanCallouts tt a gen n1 i1 rest1)). plain x"
      using pl by (intro less.hyps) simp_all
    then show ?thesis
      using scanCallouts_Cons [OF st] Cons pl by auto
  qed
qed

lemma scan_out_nonempty: "ls \<noteq> [] \<Longrightarrow> fst (scanCallouts tt a gen n i ls) \<noteq> []"
proof (cases ls)
  case Nil
  assume "ls \<noteq> []"
  then show ?thesis using Nil by simp
next
  case (Cons l rest)
  obtain emit co n1 i1 rest1 where st: "calloutStep tt a gen n i l rest = (emit, co, n1, i1, rest1)"
    by (metis prod_cases5)
  then show ?thesis
    using scanCallouts_Cons [OF st] calloutStep_shape [OF st] Cons by simp
qed

lemma extract_reparse:
  assumes cr: "CR \<notin> set text" and valid: "\<forall>k. validId (gen k)"
  shows "extractTrackedCallouts (fst (extractTrackedCallouts text tts True gen)) tts a gen'
         = extractTrackedCallouts text tts True gen"
proof -
  let ?tt = "uniqLower tts"
  let ?out = "fst (scanCallouts ?tt True gen 0 0 (splitLines text))"
  have "\<forall>x \<in> set (splitLines text). plain x"
    using cr splitLines_plain by blast
  then have "\<forall>x \<in> set ?out. plain x"
    using valid by (intro scan_out_plain) (simp_all add: validId_plain)
  moreover have "?out \<noteq> []" by (simp add: scan_out_nonempty)
  ultimately have sj: "splitLines (joinLines ?out) = ?out" by (simp add: split_join)
  have "scanCallouts ?tt a gen' 0 0 ?out = scanCallouts ?tt True gen 0 0 (splitLines text)"
    using valid by (rule rescan_patched)
  then show ?thesis
    by (simp add: extractTrackedCallouts_def case_prod_beta sj)
qed

lemma isQuoted_marker: "isQuoted (CHR ''>'' # s)"
  by (simp add: isQuoted_def trimStart_def isSpace_def)

lemma quoteBodyLines_quoted: "list_all isQuoted (quoteBodyLines b)"
  by (auto simp: quoteBodyLines_def list_all_iff isQuoted_marker)

lemma quoteBodyLines_plain:
  "\<forall>l \<in> set b. plain l \<Longrightarrow> \<forall>x \<in> set (quoteBodyLines b). plain x"
  by (auto simp: quoteBodyLines_def plain_def LF_def CR_def)

lemma desc_strict:
  "sorted (map (\<lambda>p. - int (opStart p)) ds) \<Longrightarrow> distinct (map opStart ds) \<Longrightarrow>
   sorted_wrt (\<lambda>a b. opStart b < opStart a) ds"
proof (induction ds)
  case Nil
  show ?case by simp
next
  case (Cons d ds)
  have "opStart x < opStart d" if "x \<in> set ds" for x
  proof -
    have "opStart x \<le> opStart d" using Cons.prems(1) that by auto
    moreover have "opStart d \<notin> opStart ` set ds" using Cons.prems(2) by simp
    then have "opStart x \<noteq> opStart d" using that by (metis imageI)
    ultimately show ?thesis by simp
  qed
  then show ?case using Cons by simp
qed

lemma sortOps_rev_ascending:
  "distinct (map opStart ops) \<Longrightarrow> sorted_wrt (\<lambda>a b. opStart a < opStart b) (rev (sortOps ops))"
  using desc_strict [OF sortOps_sorted sortOps_distinct, of ops]
  by (simp add: sorted_wrt_rev)

lemma sourceOps_fit:
  assumes non: "nonOverlapping lines (sourceOps cs entries)"
  shows "bodySpanOps cs (rev (sortOps (sourceOps cs entries)))"
proof -
  have "distinct (map opStart (sourceOps cs entries))"
    using non by (simp add: nonOverlapping_def)
  then have "sorted_wrt (\<lambda>a b. opStart a < opStart b) (rev (sortOps (sourceOps cs entries)))"
    by (rule sortOps_rev_ascending)
  moreover have "list_all isQuoted (opInsert p) \<and>
        (\<exists>c \<in> set cs. opStart p = startLine c + 1 \<and> opEnd p = quoteEndLine c)"
    if "p \<in> set (sourceOps cs entries)" for p
    using sourceOps_member [OF that] quoteBodyLines_quoted by auto
  ultimately show ?thesis
    by (simp add: bodySpanOps_def sortOps_set)
qed

lemma sourceOps_plain:
  assumes "\<forall>e \<in> set entries. \<forall>l \<in> set (chBodyLines e). plain l"
    and "p \<in> set (sourceOps cs entries)"
  shows "\<forall>x \<in> set (opInsert p). plain x"
proof -
  obtain e where "e \<in> set entries" "opInsert p = quoteBodyLines (chBodyLines e)"
    using sourceOps_member [OF assms(2)] by auto
  then show ?thesis using assms(1) quoteBodyLines_plain [of "chBodyLines e"] by simp
qed

lemma calloutStep_False_indep:
  "calloutStep tt False g n i l rest = (emit, co, n1, i1, rest1) \<Longrightarrow>
   calloutStep tt False g' n' i l rest = (emit, co, n', i1, rest1)"
  by (auto simp: calloutStep_def Let_def split: option.splits if_splits)

lemma scan_False_indep:
  "snd (scanCallouts tt False g n i ls) = snd (scanCallouts tt False g' n' i ls)"
proof (induction "length ls" arbitrary: ls n n' i rule: less_induct)
  case less
  show ?case
  proof (cases ls)
    case Nil
    then show ?thesis by simp
  next
    case (Cons l rest)
    obtain emit co n1 i1 rest1 where st: "calloutStep tt False g n i l rest = (emit, co, n1, i1, rest1)"
      by (metis prod_cases5)
    note st' = calloutStep_False_indep [OF st, of g' n']
    have "emit @ rest1 = l # rest" "emit \<noteq> []"
      using calloutStep_False [OF st] calloutStep_shape [OF st] by simp_all
    then have "length rest1 < length ls"
      using Cons by (metis length_append length_greater_0_conv less_add_same_cancel2 add.commute)
    from less.hyps [OF this] show ?thesis
      using scan_False_Cons [OF st] scan_False_Cons [OF st'] Cons by simp
  qed
qed

lemma extract_False_indep:
  "snd (extractTrackedCallouts text tts False g) = snd (extractTrackedCallouts text tts False g')"
  by (simp add: extract_callouts scan_False_indep [of _ g 0 0 _ g' 0])

lemma edits_lines:
  assumes crlf: "crlfFree text" and dist: "distinct (map chBlockId entries)"
    and cs: "cs = snd (extractTrackedCallouts text [ty] False g0)"
  shows "applyMasterEditsToSource text ty entries =
           joinLines (replaceRanges 0 (splitLines text) (rev (sortOps (sourceOps cs entries)))) \<and>
         bodySpanOps cs (rev (sortOps (sourceOps cs entries))) \<and>
         nonOverlapping (splitLines text) (sourceOps cs entries)"
proof -
  have same: "snd (extractTrackedCallouts text [ty] False noIds) = cs"
    using cs extract_False_indep by simp
  have js: "joinLines (splitLines text) = text" using crlf by (rule join_split)
  have ord: "orderedFrom 0 (length (splitLines text)) cs"
    using cs by (simp add: extract_False_ordered)
  have non: "nonOverlapping (splitLines text) (sourceOps cs entries)"
    using ord dist by (rule sourceOps_nonOverlapping)
  have "applyMasterEditsToSource text ty entries
            = joinLines (applyOps (sourceOps cs entries) (splitLines text))"
    using same js by (simp add: applyMasterEditsToSource_eq)
  then show ?thesis
    using non applyOps_nonOverlapping [OF non] sourceOps_fit [OF non] by simp
qed

lemma replaceRanges_nonempty:
  assumes "L \<noteq> []" "\<forall>p \<in> set ops. 1 \<le> opStart p"
  shows "replaceRanges 0 L ops \<noteq> []"
proof -
  have "replaceRanges 0 L ops = take (1 - 0) (drop 0 L) @ replaceRanges 1 L ops"
    using assms(2) by (intro replaceRanges_skip) simp_all
  then show ?thesis using assms(1) by (cases L) simp_all
qed

lemma edits_reparse:
  assumes cr: "CR \<notin> set text" and dist: "distinct (map chBlockId entries)"
    and pl: "\<forall>e \<in> set entries. \<forall>l \<in> set (chBodyLines e). plain l"
    and cs: "cs = snd (extractTrackedCallouts text [ty] False g0)"
  shows "list_all2 (sameCallout (rev (sortOps (sourceOps cs entries))))
           (snd (extractTrackedCallouts (applyMasterEditsToSource text ty entries) [ty] False g))
           cs"
proof -
  let ?L = "splitLines text"
  let ?asc = "rev (sortOps (sourceOps cs entries))"
  let ?L' = "replaceRanges 0 ?L ?asc"
  let ?tt = "uniqLower [ty]"
  have el: "applyMasterEditsToSource text ty entries = joinLines ?L'"
    and fit: "bodySpanOps cs ?asc"
    using edits_lines [OF CR_free_crlfFree [OF cr] dist cs] by simp_all
  have cs': "cs = snd (scanCallouts ?tt False g0 0 0 (drop 0 ?L))"
    using cs by (simp add: extract_callouts)
  have fit0: "bodySpanOps (snd (scanCallouts ?tt False g0 0 0 (drop 0 ?L))) ?asc"
    using fit cs' by simp
  have "\<forall>p \<in> set ?asc. 1 \<le> opStart p"
    using fit_starts [OF fit0] by auto
  then have ne: "?L' \<noteq> []" by (intro replaceRanges_nonempty) simp_all
  have "\<forall>x \<in> set ?L. plain x" using cr splitLines_plain by blast
  moreover have "\<forall>p \<in> set ?asc. \<forall>x \<in> set (opInsert p). plain x"
    using sourceOps_plain [OF pl] by (simp add: sortOps_set)
  ultimately have "\<forall>x \<in> set ?L'. plain x"
    using replaceRanges_set [of 0 ?L ?asc] by blast
  then have sj: "splitLines (joinLines ?L') = ?L'" using ne by (simp add: split_join)
  have "list_all2 (sameCallout ?asc) (snd (scanCallouts ?tt False g 0 0 ?L'))
          (snd (scanCallouts ?tt False g0 0 0 (drop 0 ?L)))"
    using fit0 by (rule rescan)
  then show ?thesis
    using cs' el sj by (simp add: extract_callouts)
qed

section \<open>Identifier stability\<close>

lemma sameCallout_ids:
  "list_all2 (sameCallout ops) cs' cs \<Longrightarrow>
   map blockId cs' = map blockId cs \<and> map ctype cs' = map ctype cs"
  by (induction rule: list_all2_induct) (simp_all add: sameCallout_def)

text \<open>
  Where the identifiers are kept. (1) A parse with identifier insertion returns,
  callout by callout, the identifier the text already has, and a generated one only
  where the parse without insertion finds none. (2) For a text without CR and
  well-formed generated identifiers, parsing the patched text again, in either mode,
  returns the same text and the same callouts: no identifier is changed and none is
  generated. (3) For a text without CR and entries with pairwise distinct block ids and
  body lines without CR or LF, the source rewritten by \<open>applyMasterEditsToSource\<close> has
  the same callouts with the same identifiers and types, in the same order.
\<close>

lemma identifier_stability:
  "map blockId (snd (extractTrackedCallouts text tts True gen))
     = assignIds gen 0 (map blockId (snd (extractTrackedCallouts text tts False gen))) \<and>
   (CR \<notin> set text \<and> (\<forall>k. validId (gen k)) \<longrightarrow>
      extractTrackedCallouts (fst (extractTrackedCallouts text tts True gen)) tts a gen'
        = extractTrackedCallouts text tts True gen) \<and>
   (CR \<notin> set text \<and> distinct (map chBlockId entries) \<and>
    (\<forall>e \<in> set entries. \<forall>l \<in> set (chBodyLines e). plain l) \<longrightarrow>
      map blockId (snd (extractTrackedCallouts (applyMasterEditsToSource text ty entries) [ty] False gen))
        = map blockId (snd (extractTrackedCallouts text [ty] False gen)) \<and>
      map ctype (snd (extractTrackedCallouts (applyMasterEditsToSource text ty entries) [ty] False gen))
        = map ctype (snd (extractTrackedCallouts text [ty] False gen)))"
proof (intro conjI impI)
  show "map blockId (snd (extractTrackedCallouts text tts True gen))
     = assignIds gen 0 (map blockId (snd (extractTrackedCallouts text tts False gen)))"
    by (simp add: extract_callouts scan_ids_assigned [of _ gen 0 0 _ gen 0 0])
next
  assume "CR \<notin> set text \<and> (\<forall>k. validId (gen k))"
  then show "extractTrackedCallouts (fst (extractTrackedCallouts text tts True gen)) tts a gen'
        = extractTrackedCallouts text tts True gen"
    by (simp add: extract_reparse)
next
  assume h: "CR \<notin> set text \<and> distinct (map chBlockId entries) \<and>
    (\<forall>e \<in> set entries. \<forall>l \<in> set (chBodyLines e). plain l)"
  have r: "list_all2 (sameCallout (rev (sortOps (sourceOps (snd (extractTrackedCallouts text [ty] False gen)) entries))))
           (snd (extractTrackedCallouts (applyMasterEditsToSource text ty entries) [ty] False gen))
           (snd (extractTrackedCallouts text [ty] False gen))"
    using h by (intro edits_reparse) simp_all
  show "map blockId (snd (extractTrackedCallouts (applyMasterEditsToSource text ty entries) [ty] False gen))
        = map blockId (snd (extractTrackedCallouts text [ty] False gen))"
    using sameCallout_ids [OF r] by simp
  show "map ctype (snd (extractTrackedCallouts (applyMasterEditsToSource text ty entries) [ty] False gen))
        = map ctype (snd (extractTrackedCallouts text [ty] False gen))"
    using sameCallout_ids [OF r] by simp
qed

text \<open>
  C4 fails on the code. The note \<open>Note.md\<close> has two callouts with the identifiers
  \<open>abc\<close> and \<open>def\<close>, and a body line of the first is a link to the second. The source
  pass leaves the note as it is and writes a master whose chunks for the note have the
  ids \<open>abc\<close>, \<open>def\<close>, \<open>def\<close>. \<open>applyMasterEditsToSource\<close> then builds two operations
  on the body span of the second callout (lines 7 and 8); the first splice removes the
  two body lines, the second removes two lines again, now the blank line and the line
  \<open>^def\<close>, and the next source pass gives the callout a new identifier.
\<close>

theorem identifier_deleted_by_master_sync:
  "extractTrackedCallouts selfLinkNote [''todo''] True fixedIds =
     (selfLinkNote,
      [\<lparr>ctype = ''todo'', blockId = Some ''abc'', bodyLines = [''a'', ''[see](Note.md#^def)''],
        startLine = 0, quoteEndLine = 3, idLine = Some 4\<rparr>,
       \<lparr>ctype = ''todo'', blockId = Some ''def'', bodyLines = [''b'', ''c''],
        startLine = 6, quoteEndLine = 9, idLine = Some 10\<rparr>]) \<and>
   updateMasterText plainHost noteFile
       (snd (extractTrackedCallouts selfLinkNote [''todo''] True fixedIds)) []
     = [LF] @ ''[Note](Note.md#^abc)'' @ [LF] @ ''a'' @ [LF] @ ''[see](Note.md#^def)'' @ [LF, LF] @
       ''[Note](Note.md#^def)'' @ [LF] @ ''b'' @ [LF] @ ''c'' @ [LF] \<and>
   map (\<lambda>e. (chBlockId e, chBodyLines e))
     (entriesFor plainHost
        ([LF] @ ''[Note](Note.md#^abc)'' @ [LF] @ ''a'' @ [LF] @ ''[see](Note.md#^def)'' @ [LF, LF] @
         ''[Note](Note.md#^def)'' @ [LF] @ ''b'' @ [LF] @ ''c'' @ [LF]) ''Note.md'')
     = [(''abc'', [''a'']), (''def'', []), (''def'', [''b'', ''c''])] \<and>
   map (\<lambda>p. (opStart p, opEnd p, opInsert p))
     (sortOps (sourceOps (snd (extractTrackedCallouts selfLinkNote [''todo''] False noIds))
        (entriesFor plainHost
           ([LF] @ ''[Note](Note.md#^abc)'' @ [LF] @ ''a'' @ [LF] @ ''[see](Note.md#^def)'' @ [LF, LF] @
            ''[Note](Note.md#^def)'' @ [LF] @ ''b'' @ [LF] @ ''c'' @ [LF]) ''Note.md'')))
     = [(7, 9, []), (7, 9, [''> b'', ''> c'']), (1, 3, [''> a''])] \<and>
   applyMasterEditsToSource selfLinkNote ''todo''
       (entriesFor plainHost
          ([LF] @ ''[Note](Note.md#^abc)'' @ [LF] @ ''a'' @ [LF] @ ''[see](Note.md#^def)'' @ [LF, LF] @
           ''[Note](Note.md#^def)'' @ [LF] @ ''b'' @ [LF] @ ''c'' @ [LF]) ''Note.md'')
     = ''> [!todo]'' @ [LF] @ ''> a'' @ [LF, LF] @ ''^abc'' @ [LF, LF] @
       ''> [!todo]'' @ [LF] @ ''> b'' @ [LF] @ ''> c'' @ [LF] @ ''tail'' \<and>
   map blockId (snd (extractTrackedCallouts
       (''> [!todo]'' @ [LF] @ ''> a'' @ [LF, LF] @ ''^abc'' @ [LF, LF] @
        ''> [!todo]'' @ [LF] @ ''> b'' @ [LF] @ ''> c'' @ [LF] @ ''tail'') [''todo''] True fixedIds))
     = [Some ''abc'', Some ''abc12345'']"
  by code_simp

section \<open>The master document as blocks\<close>

lemma concat_wf_head:
  "\<forall>B \<in> set Bs. wfBlock h B \<Longrightarrow> concat Bs = [] \<or> isLink h (hd (concat Bs))"
  by (cases Bs) (auto simp: wfBlock_def)

lemma takeWhile_linkFree:
  assumes "linkFree h t" "ys = [] \<or> isLink h (hd ys)"
  shows "takeWhile (\<lambda>x. \<not> isLink h x) (t @ ys) = t \<and> dropWhile (\<lambda>x. \<not> isLink h x) (t @ ys) = ys"
  using assms takeWhile_built [of "\<lambda>x. \<not> isLink h x" t ys]
  by (auto simp: linkFree_def list_all_iff)

lemma chunksFrom_blocks0:
  "\<forall>B \<in> set Bs. wfBlock h B \<Longrightarrow> chunksFrom h i (concat Bs) = chunksOfBlocks h i Bs"
proof (induction Bs arbitrary: i)
  case Nil
  show ?case by simp
next
  case (Cons B Bs)
  then obtain l t where B: "B = l # t" and l: "isLink h l" and t: "linkFree h t"
    by (cases B) (auto simp: wfBlock_def)
  obtain hd where hd: "parseMasterLinkLine h l = Some hd"
    using l by (auto simp: isLink_def)
  have tw: "takeWhile (\<lambda>x. \<not> isLink h x) (t @ concat Bs) = t"
           "dropWhile (\<lambda>x. \<not> isLink h x) (t @ concat Bs) = concat Bs"
    using takeWhile_linkFree [OF t concat_wf_head [of Bs h]] Cons.prems by simp_all
  have "chunksFrom h (i + 1 + length t) (concat Bs) = chunksOfBlocks h (i + 1 + length t) Bs"
    using Cons by simp
  then show ?case
    using B hd tw by (simp add: Let_def headOf_def)
qed

lemma chunksFrom_blocks:
  "linkFree h pre \<Longrightarrow> \<forall>B \<in> set Bs. wfBlock h B \<Longrightarrow>
   chunksFrom h i (pre @ concat Bs) = chunksOfBlocks h (i + length pre) Bs"
proof (induction pre arbitrary: i)
  case Nil
  then show ?case by (simp add: chunksFrom_blocks0)
next
  case (Cons x pre)
  then have "parseMasterLinkLine h x = None" by (simp add: linkFree_def isLink_def)
  moreover have "chunksFrom h (i + 1) (pre @ concat Bs) = chunksOfBlocks h (i + 1 + length pre) Bs"
    using Cons by (simp add: linkFree_def)
  ultimately show ?case by simp
qed

lemma blocks_exist0:
  "ls = [] \<or> isLink h (hd ls) \<Longrightarrow> \<exists>Bs. ls = concat Bs \<and> (\<forall>B \<in> set Bs. wfBlock h B)"
proof (induction "length ls" arbitrary: ls rule: less_induct)
  case less
  show ?case
  proof (cases ls)
    case Nil
    then show ?thesis by (intro exI [of _ "[]"]) simp
  next
    case (Cons l r)
    let ?t = "takeWhile (\<lambda>x. \<not> isLink h x) r"
    let ?d = "dropWhile (\<lambda>x. \<not> isLink h x) r"
    have l: "isLink h l" using less.prems Cons by simp
    have "length ?d < length ls" using Cons length_dropWhile_le [of _ r] by (simp add: less_Suc_eq_le)
    moreover have "?d = [] \<or> isLink h (hd ?d)"
      using hd_dropWhile [of "\<lambda>x. \<not> isLink h x" r] by blast
    ultimately obtain Bs where Bs: "?d = concat Bs" "\<forall>B \<in> set Bs. wfBlock h B"
      using less.hyps by blast
    have "wfBlock h (l # ?t)"
      using l by (auto simp: wfBlock_def linkFree_def dest: set_takeWhileD)
    moreover have "ls = concat ((l # ?t) # Bs)"
      using Cons Bs(1) takeWhile_dropWhile_id [of _ r] by (metis append_Cons concat.simps(2))
    ultimately show ?thesis using Bs(2) by (intro exI [of _ "(l # ?t) # Bs"]) simp
  qed
qed

lemma blocks_exist:
  "\<exists>pre Bs. ls = pre @ concat Bs \<and> linkFree h pre \<and> (\<forall>B \<in> set Bs. wfBlock h B)"
proof -
  let ?pre = "takeWhile (\<lambda>x. \<not> isLink h x) ls"
  let ?d = "dropWhile (\<lambda>x. \<not> isLink h x) ls"
  have "?d = [] \<or> isLink h (hd ?d)"
    using hd_dropWhile [of "\<lambda>x. \<not> isLink h x" ls] by blast
  then obtain Bs where "?d = concat Bs" "\<forall>B \<in> set Bs. wfBlock h B"
    using blocks_exist0 by blast
  moreover have "linkFree h ?pre" by (auto simp: linkFree_def dest: set_takeWhileD)
  moreover have "ls = ?pre @ ?d" by simp
  ultimately show ?thesis by metis
qed

lemma newBlock_notP: "hPath (headOf h B) \<noteq> fpath sf \<Longrightarrow> newBlock h sf cs B = B"
  by (simp add: newBlock_def)

lemma replaceRanges_blocks:
  "replaceRanges (length X0) (X0 @ pre @ concat Bs)
     (masterOps sf cs (filter (\<lambda>c. sourcePath c = fpath sf)
        (chunksOfBlocks h (length X0 + length pre) Bs)))
   = pre @ concat (map (newBlock h sf cs) Bs)"
proof (induction Bs arbitrary: X0 pre)
  case Nil
  show ?case by (simp add: masterOps_def)
next
  case (Cons B Bs)
  let ?L = "X0 @ pre @ concat (B # Bs)"
  let ?s = "length X0 + length pre"
  show ?case
  proof (cases "hPath (headOf h B) = fpath sf")
    case False
    have "replaceRanges (length X0) (X0 @ (pre @ B) @ concat Bs)
       (masterOps sf cs (filter (\<lambda>c. sourcePath c = fpath sf)
          (chunksOfBlocks h (length X0 + length (pre @ B)) Bs)))
     = (pre @ B) @ concat (map (newBlock h sf cs) Bs)"
      by (rule Cons.IH)
    then show ?thesis using False by (simp add: newBlock_notP add.assoc)
  next
    case True
    have "replaceRanges (length (X0 @ pre @ B)) ((X0 @ pre @ B) @ [] @ concat Bs)
       (masterOps sf cs (filter (\<lambda>c. sourcePath c = fpath sf)
          (chunksOfBlocks h (length (X0 @ pre @ B) + length ([] :: string list)) Bs)))
     = [] @ concat (map (newBlock h sf cs) Bs)"
      by (rule Cons.IH)
    then have r: "replaceRanges (?s + length B) ?L
       (masterOps sf cs (filter (\<lambda>c. sourcePath c = fpath sf)
          (chunksOfBlocks h (?s + length B) Bs)))
     = concat (map (newBlock h sf cs) Bs)"
      by (simp add: add.assoc)
    have nb: "newBlock h sf cs B = (case calloutsById cs (Some (hBlockId (headOf h B))) of
           None \<Rightarrow> [] | Some d \<Rightarrow> chunkFor sf d)"
      using True by (simp add: newBlock_def)
    show ?thesis
      using True r by (simp add: nb masterOps_def split: option.splits)
  qed
qed

lemma chunksOfBlocks_ids:
  "map chBlockId (filter (\<lambda>c. sourcePath c = fpath sf) (chunksOfBlocks h i Bs))
   = map (blockIdOf h) (filter (isOwn h sf) Bs)"
  by (induction Bs arbitrary: i) (simp_all add: blockIdOf_def isOwn_def)

lemma updateMasterText_blocks:
  assumes "splitLines M = pre @ concat Bs" "linkFree h pre" "\<forall>B \<in> set Bs. wfBlock h B"
  shows "updateMasterText h sf cs M = ensureFinalLF (joinLines (passLines h sf cs pre Bs))"
proof -
  let ?L = "splitLines M"
  let ?ex = "filter (\<lambda>c. sourcePath c = fpath sf) (chunksFrom h 0 ?L)"
  have ch: "chunksFrom h 0 ?L = chunksOfBlocks h (length pre) Bs"
    using chunksFrom_blocks [OF assms(2,3), of 0] assms(1) by simp
  have ord: "orderedChunks 0 (length ?L) ?ex"
    using chunksFrom_ordered [of 0 ?L h] by (simp add: orderedChunks_filter)
  have "applyOps (masterOps sf cs ?ex) ?L = replaceRanges 0 ?L (masterOps sf cs ?ex)"
    using applyOps_nonOverlapping [OF masterOps_nonOverlapping(1) [OF ord, of sf cs]]
      masterOps_nonOverlapping(2) [OF ord, of sf cs]
    by simp
  also have "\<dots> = pre @ concat (map (newBlock h sf cs) Bs)"
    using replaceRanges_blocks [of "[]" pre Bs sf cs h] ch assms(1) by simp
  finally have ap: "applyOps (masterOps sf cs ?ex) ?L = pre @ concat (map (newBlock h sf cs) Bs)" .
  have ids: "set (map chBlockId ?ex) = blockIdOf h ` set (filter (isOwn h sf) Bs)"
    using chunksOfBlocks_ids [of sf h "length pre" Bs] ch by (metis set_map)
  have ad: "masterAdditions sf cs ?ex = concat (map (chunkFor sf)
                (filter (\<lambda>d. blockId d \<notin> Some ` blockIdOf h ` set (filter (isOwn h sf) Bs)) cs))"
    unfolding masterAdditions_def ids ..
  show ?thesis
    unfolding updateMasterText_def parseMasterChunks_def Let_def prod.case ap ad passLines_def ..
qed

lemma parse_Nil: "parseMasterLinkLine h [] = None"
  by (simp add: parseMasterLinkLine_def Let_def trim_def trimStart_def trimEnd_def
      parseMdLink_def parseWikiLink_def)

lemma not_isLink_Nil [simp]: "\<not> isLink h []"
  by (simp add: isLink_def parse_Nil)

lemma calloutsById_distinct:
  "distinct (map blockId cs) \<Longrightarrow> c \<in> set cs \<Longrightarrow> calloutsById cs (blockId c) = Some c"
proof -
  assume d: "distinct (map blockId cs)" and c: "c \<in> set cs"
  have "distinct (map fst (rev (map (\<lambda>c. (blockId c, c)) cs)))"
    using d by (simp add: rev_map [symmetric] comp_def)
  moreover have "(blockId c, c) \<in> set (rev (map (\<lambda>c. (blockId c, c)) cs))"
    using c by auto
  ultimately show ?thesis
    unfolding calloutsById_def by (rule map_of_is_SomeI)
qed

lemma chunkFor_eq:
  "chunkFor sf c = linkLine (basename sf) (fpath sf) (idText (blockId c)) # bodyLines c @ [[]]"
  by (simp add: chunkFor_def buildMasterChunkLines_def)

lemma chunkFor_shape:
  "chunkFor sf c \<noteq> []" "last (chunkFor sf c) = []" "2 \<le> length (chunkFor sf c)"
  by (simp_all add: chunkFor_eq)

lemma chunkFor_facts:
  assumes "wellLinked h sf cs" "c \<in> set cs"
  shows "wfBlock h (chunkFor sf c)"
    and "isOwn h sf (chunkFor sf c)"
    and "blockId c = Some (blockIdOf h (chunkFor sf c))"
    and "newBlock h sf cs (chunkFor sf c) = chunkFor sf c"
    and "\<forall>l \<in> set (chunkFor sf c). plain l"
proof -
  obtain b where b: "blockId c = Some b" and rt: "linkRoundTrip h sf b"
    using assms by (auto simp: wellLinked_def split: option.splits)
  let ?l = "linkLine (basename sf) (fpath sf) b"
  obtain hd where hd: "parseMasterLinkLine h ?l = Some hd" "hPath hd = fpath sf" "hBlockId hd = b"
    using rt by (auto simp: linkRoundTrip_def)
  have eq: "chunkFor sf c = ?l # bodyLines c @ [[]]"
    by (simp add: chunkFor_eq b idText_def)
  have body: "\<forall>l \<in> set (bodyLines c). plain l \<and> \<not> isLink h l"
    using assms by (auto simp: wellLinked_def)
  show "wfBlock h (chunkFor sf c)"
    using hd(1) body by (auto simp: eq wfBlock_def isLink_def linkFree_def parse_Nil)
  show own: "isOwn h sf (chunkFor sf c)"
    using hd by (simp add: eq isOwn_def headOf_def)
  show bid: "blockId c = Some (blockIdOf h (chunkFor sf c))"
    using hd by (simp add: eq blockIdOf_def headOf_def b)
  have "calloutsById cs (Some (blockIdOf h (chunkFor sf c))) = Some c"
    using calloutsById_distinct [of cs c] assms bid by (simp add: wellLinked_def)
  then show "newBlock h sf cs (chunkFor sf c) = chunkFor sf c"
    using own by (simp add: newBlock_def isOwn_def blockIdOf_def)
  show "\<forall>l \<in> set (chunkFor sf c). plain l"
    using rt body by (auto simp: eq linkRoundTrip_def)
qed

lemma settled_replaced:
  assumes "wellLinked h sf cs"
  shows "\<forall>B \<in> set Bs. wfBlock h B \<and> (\<forall>l \<in> set B. plain l) \<Longrightarrow>
         settledBlocks h sf cs (kept h sf cs Bs)
           (filter (\<lambda>B. B \<noteq> []) (map (newBlock h sf cs) Bs))"
proof (induction Bs)
  case Nil
  show ?case by (simp add: settledBlocks_def kept_def)
next
  case (Cons B Bs)
  then have ih: "settledBlocks h sf cs (kept h sf cs Bs)
           (filter (\<lambda>B. B \<noteq> []) (map (newBlock h sf cs) Bs))" by simp
  have wf: "wfBlock h B" "\<forall>l \<in> set B. plain l" using Cons.prems by simp_all
  have k: "kept h sf cs (B # Bs) = (if isOwn h sf B then
                         (case calloutsById cs (Some (blockIdOf h B)) of
                            None \<Rightarrow> [] | Some d \<Rightarrow> [d])
                       else []) @ kept h sf cs Bs"
    by (simp add: kept_def)
  show ?case
  proof (cases "isOwn h sf B")
    case False
    then have "newBlock h sf cs B = B" by (simp add: newBlock_def isOwn_def)
    moreover have "B \<noteq> []" using wf by (simp add: wfBlock_def)
    ultimately show ?thesis using False ih wf by (simp add: k settledBlocks_def)
  next
    case True
    show ?thesis
    proof (cases "calloutsById cs (Some (blockIdOf h B))")
      case None
      then have "newBlock h sf cs B = []"
        using True by (simp add: newBlock_def isOwn_def blockIdOf_def)
      then show ?thesis using True None ih by (simp add: k)
    next
      case (Some d)
      then have nb: "newBlock h sf cs B = chunkFor sf d"
        using True by (simp add: newBlock_def isOwn_def blockIdOf_def)
      have d: "d \<in> set cs" using calloutsById_Some [OF Some] by simp
      show ?thesis
        using True Some ih chunkFor_facts(1,2,5) [OF assms d] chunkFor_shape(1) [of sf d] d
        by (simp add: k nb settledBlocks_def)
    qed
  qed
qed

lemma settled_new:
  assumes "wellLinked h sf cs" "set ns \<subseteq> set cs"
  shows "settledBlocks h sf cs ns (map (chunkFor sf) ns)"
proof -
  have "filter (isOwn h sf) (map (chunkFor sf) ns) = map (chunkFor sf) ns"
    using chunkFor_facts(2) [OF assms(1)] assms(2) by (auto simp: filter_id_conv)
  then show ?thesis
    using chunkFor_facts(1,5) [OF assms(1)] assms(2) by (auto simp: settledBlocks_def)
qed

lemma settled_append:
  "settledBlocks h sf cs ks Bs \<Longrightarrow> settledBlocks h sf cs ks' Bs' \<Longrightarrow>
   settledBlocks h sf cs (ks @ ks') (Bs @ Bs')"
  by (auto simp: settledBlocks_def)

lemma settled_last_own:
  assumes "settledBlocks h sf cs ks Bs" "Bs \<noteq> []" "isOwn h sf (last Bs)"
  shows "\<exists>k \<in> set cs. last Bs = chunkFor sf k"
proof -
  have "last Bs \<in> set (filter (isOwn h sf) Bs)" using assms(2,3) by simp
  moreover have "filter (isOwn h sf) Bs = map (chunkFor sf) ks" "set ks \<subseteq> set cs"
    using assms(1) by (simp_all add: settledBlocks_def)
  ultimately have "last Bs \<in> chunkFor sf ` set ks" by (metis set_map)
  then show ?thesis using \<open>set ks \<subseteq> set cs\<close> by auto
qed

lemma settled_extend:
  assumes "settledBlocks h sf cs ks Bs" "Bs \<noteq> []" "\<not> isOwn h sf (last Bs)"
  shows "settledBlocks h sf cs ks (butlast Bs @ [last Bs @ [[]]])"
    and "concat (butlast Bs @ [last Bs @ [[]]]) = concat Bs @ [[]]"
proof -
  let ?B = "last Bs"
  have Bs: "Bs = butlast Bs @ [?B]" using assms(2) by simp
  have wf: "wfBlock h ?B" "\<forall>l \<in> set ?B. plain l"
    using assms(1,2) by (auto simp: settledBlocks_def)
  then have ne: "?B \<noteq> []" by (simp add: wfBlock_def)
  have hd: "hd (?B @ [[]]) = hd ?B" using ne by simp
  have wf': "wfBlock h (?B @ [[]])"
    using wf(1) ne by (auto simp: wfBlock_def linkFree_def)
  have own': "\<not> isOwn h sf (?B @ [[]])"
    using assms(3) by (simp add: isOwn_def headOf_def hd)
  have pl: "\<forall>l \<in> set (?B @ [[]]). plain l" using wf(2) by auto
  have f: "filter (isOwn h sf) (butlast Bs @ [?B @ [[]]]) = filter (isOwn h sf) (butlast Bs)"
    using own' by simp
  have "filter (isOwn h sf) Bs = filter (isOwn h sf) (butlast Bs)"
    using assms(3) by (subst Bs) simp
  then have "filter (isOwn h sf) (butlast Bs @ [?B @ [[]]]) = map (chunkFor sf) ks"
    using f assms(1) by (simp add: settledBlocks_def)
  moreover have "\<forall>B \<in> set (butlast Bs). wfBlock h B \<and> (\<forall>l \<in> set B. plain l)"
    using assms(1) by (auto simp: settledBlocks_def dest: in_set_butlastD)
  ultimately show "settledBlocks h sf cs ks (butlast Bs @ [?B @ [[]]])"
    using wf' pl assms(1) by (auto simp: settledBlocks_def)
  have "concat Bs = concat (butlast Bs) @ ?B" by (subst Bs) simp
  then show "concat (butlast Bs @ [?B @ [[]]]) = concat Bs @ [[]]" by simp
qed

lemma joinLines_snoc: "ls \<noteq> [] \<Longrightarrow> joinLines (ls @ [l]) = joinLines ls @ LF # l"
  by (induction ls rule: joinLines.induct) simp_all

lemma joinLines_no_CR: "\<forall>l \<in> set ls. plain l \<Longrightarrow> CR \<notin> set (joinLines ls)"
  by (induction ls rule: joinLines.induct) (auto simp: plain_def LF_def CR_def)

lemma endsWithLF_join: "2 \<le> length ls \<Longrightarrow> last ls = [] \<Longrightarrow> endsWithLF (joinLines ls)"
proof -
  assume a: "2 \<le> length ls" "last ls = []"
  then have ne: "ls \<noteq> []" by auto
  then have ls: "ls = butlast ls @ [[]]" using a(2) by (metis append_butlast_last_id)
  have "butlast ls \<noteq> []" using a(1) by (cases ls) auto
  then have "joinLines (butlast ls @ [[]]) = joinLines (butlast ls) @ [LF]"
    by (simp add: joinLines_snoc)
  then show ?thesis using ls by (simp add: endsWithLF_def)
qed

lemma split_final:
  assumes "\<forall>l \<in> set ls. plain l"
  shows "splitLines (ensureFinalLF (joinLines ls))
         = (if ls = [] then [[], []] else if endsWithLF (joinLines ls) then ls else ls @ [[]])"
proof (cases "ls = []")
  case True
  then show ?thesis by (simp add: ensureFinalLF_def endsWithLF_def)
next
  case False
  show ?thesis
  proof (cases "endsWithLF (joinLines ls)")
    case True
    then show ?thesis using False assms by (simp add: ensureFinalLF_def split_join)
  next
    case e: False
    have "joinLines ls @ [LF] = joinLines (ls @ [[]])" using False by (simp add: joinLines_snoc)
    moreover have "splitLines (joinLines (ls @ [[]])) = ls @ [[]]"
      using assms by (intro split_join) (auto simp: plain_def)
    ultimately show ?thesis using False e by (simp add: ensureFinalLF_def)
  qed
qed

lemma concat_filter_nonempty: "concat (filter (\<lambda>B. B \<noteq> []) Bs) = concat Bs"
  by (induction Bs) simp_all

lemma masterForm_plain:
  "masterForm h sf cs ks pre Bs \<Longrightarrow> \<forall>l \<in> set (pre @ concat Bs). plain l"
  by (auto simp: masterForm_def settledBlocks_def)

lemma masterForm_last:
  assumes "masterForm h sf cs ks pre Bs" "Bs \<noteq> []" "isOwn h sf (last Bs)"
  shows "last (pre @ concat Bs) = []" "2 \<le> length (pre @ concat Bs)"
proof -
  have "settledBlocks h sf cs ks Bs" using assms(1) by (simp add: masterForm_def)
  from settled_last_own [OF this assms(2,3)]
  obtain k where k: "last Bs = chunkFor sf k" by blast
  have "concat Bs = concat (butlast Bs) @ last Bs"
    using assms(2) by (metis append_butlast_last_id concat_append concat.simps append_Nil2)
  then have c: "pre @ concat Bs = (pre @ concat (butlast Bs)) @ chunkFor sf k"
    using k by simp
  show "last (pre @ concat Bs) = []"
    unfolding c using chunkFor_shape(1,2) [of sf k] by simp
  show "2 \<le> length (pre @ concat Bs)"
    unfolding c using chunkFor_shape(3) [of sf k] by simp
qed

lemma ext_form:
  assumes "masterForm h sf cs ks pre Bs" "Bs \<noteq> [] \<longrightarrow> \<not> isOwn h sf (last Bs)"
  shows "\<exists>pre' Bs'. (pre @ concat Bs) @ [[]] = pre' @ concat Bs' \<and> masterForm h sf cs ks pre' Bs'"
proof (cases "Bs = []")
  case True
  have "masterForm h sf cs ks (pre @ [[]]) []"
    using assms(1) True by (auto simp: masterForm_def linkFree_def plain_def)
  then show ?thesis using True by (intro exI [of _ "pre @ [[]]"] exI [of _ "[]"]) simp
next
  case False
  have s: "settledBlocks h sf cs ks Bs" using assms(1) by (simp add: masterForm_def)
  have no: "\<not> isOwn h sf (last Bs)" using assms(2) False by simp
  have "masterForm h sf cs ks pre (butlast Bs @ [last Bs @ [[]]])"
    using settled_extend(1) [OF s False no] assms(1) by (simp add: masterForm_def)
  moreover have "(pre @ concat Bs) @ [[]] = pre @ concat (butlast Bs @ [last Bs @ [[]]])"
    using settled_extend(2) [OF s False no] by simp
  ultimately show ?thesis by blast
qed

lemma final_form:
  assumes "masterForm h sf cs ks pre Bs"
  shows "\<exists>pre' Bs'. splitLines (ensureFinalLF (joinLines (pre @ concat Bs))) = pre' @ concat Bs' \<and>
           masterForm h sf cs ks pre' Bs'"
proof -
  define X where "X = pre @ concat Bs"
  have pl: "\<forall>l \<in> set X. plain l" unfolding X_def using assms by (rule masterForm_plain)
  note sf = split_final [OF pl]
  consider (empty) "X = []" | (lf) "X \<noteq> []" "endsWithLF (joinLines X)"
    | (ext) "X \<noteq> []" "\<not> endsWithLF (joinLines X)" by blast
  then have "\<exists>pre' Bs'. splitLines (ensureFinalLF (joinLines X)) = pre' @ concat Bs' \<and>
           masterForm h sf cs ks pre' Bs'"
  proof cases
    case empty
    have "B \<noteq> []" if "B \<in> set Bs" for B
      using assms that by (auto simp: masterForm_def settledBlocks_def wfBlock_def)
    then have "Bs = []" using empty by (cases Bs) (auto simp: X_def)
    then have "masterForm h sf cs ks [[], []] []"
      using assms by (auto simp: masterForm_def linkFree_def plain_def)
    moreover have "splitLines (ensureFinalLF (joinLines X)) = [[], []] @ concat []"
      using sf empty by simp
    ultimately show ?thesis by blast
  next
    case lf
    then have "splitLines (ensureFinalLF (joinLines X)) = X"
      using sf by simp
    then show ?thesis using assms unfolding X_def by blast
  next
    case ext
    have "Bs \<noteq> [] \<longrightarrow> \<not> isOwn h sf (last Bs)"
      using masterForm_last [OF assms] endsWithLF_join [of X] ext(2) by (auto simp: X_def)
    from ext_form [OF assms this] obtain pre' Bs' where
      "X @ [[]] = pre' @ concat Bs'" "masterForm h sf cs ks pre' Bs'" by (auto simp: X_def)
    moreover have "splitLines (ensureFinalLF (joinLines X)) = X @ [[]]"
      using sf ext by simp
    ultimately show ?thesis by metis
  qed
  then show ?thesis by (simp add: X_def)
qed

lemma passLines_form:
  assumes wl: "wellLinked h sf cs"
    and pre: "linkFree h pre" "\<forall>l \<in> set pre. plain l"
    and Bs: "\<forall>B \<in> set Bs. wfBlock h B \<and> (\<forall>l \<in> set B. plain l)"
  shows "\<exists>pre' Bs'. passLines h sf cs pre Bs = pre' @ concat Bs' \<and>
           masterForm h sf cs (kept h sf cs Bs @ newCallouts h sf cs Bs) pre' Bs'"
proof -
  let ?Bs1 = "filter (\<lambda>B. B \<noteq> []) (map (newBlock h sf cs) Bs)"
  let ?L1 = "pre @ concat ?Bs1"
  let ?ns = "newCallouts h sf cs Bs"
  let ?ks = "kept h sf cs Bs"
  have L1: "pre @ concat (map (newBlock h sf cs) Bs) = ?L1"
    by (simp add: concat_filter_nonempty)
  have f1: "masterForm h sf cs ?ks pre ?Bs1"
    using settled_replaced [OF wl Bs] pre by (simp add: masterForm_def)
  have sn: "settledBlocks h sf cs ?ns (map (chunkFor sf) ?ns)"
    by (rule settled_new [OF wl]) (auto simp: newCallouts_def)
  have A: "concat (map (chunkFor sf) ?ns) = [] \<longleftrightarrow> ?ns = []"
    using chunkFor_shape(1) [of sf] by (cases ?ns) auto
  show ?thesis
  proof (cases "?ns = []")
    case True
    then have "passLines h sf cs pre Bs = ?L1"
      using A L1 by (simp add: passLines_def newCallouts_def Let_def)
    then show ?thesis using f1 True by auto
  next
    case False
    let ?pad = "?L1 \<noteq> [] \<and> \<not> isBlank (last ?L1)"
    have pl: "passLines h sf cs pre Bs = (if ?pad then ?L1 @ [[]] else ?L1) @ concat (map (chunkFor sf) ?ns)"
      using A L1 False by (simp add: passLines_def newCallouts_def Let_def)
    have "\<exists>pre' Bs'. (if ?pad then ?L1 @ [[]] else ?L1) = pre' @ concat Bs' \<and>
           masterForm h sf cs ?ks pre' Bs'"
    proof (cases ?pad)
      case True
      have "?Bs1 \<noteq> [] \<longrightarrow> \<not> isOwn h sf (last ?Bs1)"
        using masterForm_last(1) [OF f1] True by (auto simp: isBlank_def trim_def trimStart_def trimEnd_def)
      from ext_form [OF f1 this] show ?thesis using True by simp
    next
      case False
      then show ?thesis using f1 by auto
    qed
    then obtain pre' Bs' where p: "(if ?pad then ?L1 @ [[]] else ?L1) = pre' @ concat Bs'"
      "masterForm h sf cs ?ks pre' Bs'" by blast
    have "masterForm h sf cs (?ks @ ?ns) pre' (Bs' @ map (chunkFor sf) ?ns)"
      using p(2) sn by (simp add: masterForm_def settled_append)
    moreover have "passLines h sf cs pre Bs = pre' @ concat (Bs' @ map (chunkFor sf) ?ns)"
      using pl p(1) by simp
    ultimately show ?thesis by blast
  qed
qed

lemma pass_form:
  assumes wl: "wellLinked h sf cs" and M: "splitLines M = pre @ concat Bs"
    and pre: "linkFree h pre" "\<forall>l \<in> set pre. plain l"
    and Bs: "\<forall>B \<in> set Bs. wfBlock h B \<and> (\<forall>l \<in> set B. plain l)"
  shows "(\<exists>pre' Bs'. splitLines (updateMasterText h sf cs M) = pre' @ concat Bs' \<and>
           masterForm h sf cs (kept h sf cs Bs @ newCallouts h sf cs Bs) pre' Bs') \<and>
         CR \<notin> set (updateMasterText h sf cs M) \<and> endsWithLF (updateMasterText h sf cs M)"
proof -
  have up: "updateMasterText h sf cs M = ensureFinalLF (joinLines (passLines h sf cs pre Bs))"
    using updateMasterText_blocks [OF M pre(1)] Bs by simp
  obtain pre' Bs' where p: "passLines h sf cs pre Bs = pre' @ concat Bs'"
           "masterForm h sf cs (kept h sf cs Bs @ newCallouts h sf cs Bs) pre' Bs'"
    using passLines_form [OF wl pre Bs] by blast
  have "CR \<notin> set (joinLines (passLines h sf cs pre Bs))"
    unfolding p(1) using masterForm_plain [OF p(2)] by (rule joinLines_no_CR)
  then have "CR \<notin> set (updateMasterText h sf cs M)"
    by (simp add: up ensureFinalLF_def CR_def LF_def)
  moreover have "endsWithLF (updateMasterText h sf cs M)"
    by (simp add: up ensureFinalLF_def endsWithLF_def)
  ultimately show ?thesis using final_form [OF p(2)] up p(1) by simp
qed

lemma kept_covers:
  assumes "wellLinked h sf cs"
  shows "set cs \<subseteq> set (kept h sf cs Bs @ newCallouts h sf cs Bs)"
proof
  fix c assume c: "c \<in> set cs"
  show "c \<in> set (kept h sf cs Bs @ newCallouts h sf cs Bs)"
  proof (cases "blockId c \<in> Some ` blockIdOf h ` set (filter (isOwn h sf) Bs)")
    case False
    then show ?thesis using c by (simp add: newCallouts_def)
  next
    case True
    then obtain B where B: "B \<in> set Bs" "isOwn h sf B" "blockId c = Some (blockIdOf h B)" by auto
    have "calloutsById cs (Some (blockIdOf h B)) = Some c"
      using calloutsById_distinct [of cs c] assms c B(3) by (simp add: wellLinked_def)
    then have "c \<in> set (kept h sf cs Bs)"
      using B(1,2) by (auto simp: kept_def intro!: bexI [of _ B])
    then show ?thesis by simp
  qed
qed

lemma settled_fixpoint:
  assumes wl: "wellLinked h sf cs" and f: "masterForm h sf cs ks pre Bs" and cov: "set cs \<subseteq> set ks"
    and M: "splitLines M = pre @ concat Bs" "CR \<notin> set M" "endsWithLF M"
  shows "updateMasterText h sf cs M = M"
proof -
  have s: "settledBlocks h sf cs ks Bs" and pre: "linkFree h pre"
    using f by (simp_all add: masterForm_def)
  have own: "filter (isOwn h sf) Bs = map (chunkFor sf) ks" and ks: "set ks \<subseteq> set cs"
    using s by (simp_all add: settledBlocks_def)
  have wf: "\<forall>B \<in> set Bs. wfBlock h B" using s by (simp add: settledBlocks_def)
  have nb: "newBlock h sf cs B = B" if "B \<in> set Bs" for B
  proof (cases "isOwn h sf B")
    case False
    then show ?thesis by (simp add: newBlock_notP isOwn_def)
  next
    case True
    then have "B \<in> set (filter (isOwn h sf) Bs)" using that by simp
    then have "B \<in> chunkFor sf ` set ks" unfolding own by simp
    then show ?thesis using chunkFor_facts(4) [OF wl] ks by auto
  qed
  then have m: "map (newBlock h sf cs) Bs = Bs" by (simp add: map_idI)
  have "blockId d \<in> Some ` blockIdOf h ` set (filter (isOwn h sf) Bs)" if "d \<in> set cs" for d
  proof -
    have "chunkFor sf d \<in> set (filter (isOwn h sf) Bs)" unfolding own using that cov by auto
    then show ?thesis using chunkFor_facts(3) [OF wl that] by (metis imageI)
  qed
  then have "filter (\<lambda>d. blockId d \<notin> Some ` blockIdOf h ` set (filter (isOwn h sf) Bs)) cs = []"
    by (simp add: filter_empty_conv)
  then have "passLines h sf cs pre Bs = pre @ concat Bs"
    by (simp add: passLines_def m)
  then have "updateMasterText h sf cs M = ensureFinalLF (joinLines (splitLines M))"
    using updateMasterText_blocks [OF M(1) pre wf] M(1) by simp
  also have "\<dots> = ensureFinalLF M"
    using M(2) by (simp add: join_split CR_free_crlfFree)
  also have "\<dots> = M" using M(3) by (simp add: ensureFinalLF_def)
  finally show ?thesis .
qed

lemma update_twice:
  assumes "CR \<notin> set M" "wellLinked h sf cs"
  shows "updateMasterText h sf cs (updateMasterText h sf cs M) = updateMasterText h sf cs M"
proof -
  obtain pre Bs where d: "splitLines M = pre @ concat Bs" "linkFree h pre" "\<forall>B \<in> set Bs. wfBlock h B"
    using blocks_exist [of "splitLines M" h] by blast
  have pl: "\<forall>l \<in> set (pre @ concat Bs). plain l"
    using splitLines_plain [OF assms(1)] d(1) by metis
  then have p1: "\<forall>l \<in> set pre. plain l" and p2: "\<forall>B \<in> set Bs. wfBlock h B \<and> (\<forall>l \<in> set B. plain l)"
    using d(3) by auto
  from pass_form [OF assms(2) d(1,2) p1 p2]
  obtain pre' Bs' where f: "splitLines (updateMasterText h sf cs M) = pre' @ concat Bs'"
      "masterForm h sf cs (kept h sf cs Bs @ newCallouts h sf cs Bs) pre' Bs'"
      "CR \<notin> set (updateMasterText h sf cs M)" "endsWithLF (updateMasterText h sf cs M)"
    by blast
  show ?thesis
    by (rule settled_fixpoint [OF assms(2) f(2) kept_covers [OF assms(2)] f(1,3,4)])
qed

section \<open>Idempotence of the source-to-master pass\<close>

text \<open>
  C2, as amended. Let the master text have no CR, and let the callouts handed to
  \<open>updateMasterForSourceFile\<close> have pairwise distinct identifiers, none of them
  missing, link lines that \<open>parseMasterLinkLine\<close> reads back with the path and the
  identifier they were built from, and body lines without CR or LF none of which is
  itself a link line. Then the text rendered by one pass is a fixed point: a second
  pass with the same callouts renders the same text, and \<open>writeFileIfChanged\<close> does
  not write.
\<close>

theorem second_pass_no_write:
  assumes "CR \<notin> set masterText" and "wellLinked h sf cs"
  shows "updateMasterForSourceFile h sf cs (updateMasterText h sf cs masterText)
         = (updateMasterText h sf cs masterText, False)"
  using update_twice [OF assms]
  by (simp add: updateMasterForSourceFile_def writeFileIfChanged_def)

theorem second_pass_no_write_witness:
  "CR \<notin> set staleMaster \<and> wellLinked plainHost noteFile twoCallouts \<and>
   updateMasterText plainHost noteFile twoCallouts staleMaster
     = ''Todos'' @ [LF] @ ''[Other](Other.md#^q1)'' @ [LF] @ ''keep'' @ [LF] @
       ''[Note](Note.md#^abc)'' @ [LF] @ ''a'' @ [LF] @ ''b'' @ [LF, LF] @
       ''[Note](Note.md#^def)'' @ [LF] @ ''c'' @ [LF] \<and>
   updateMasterForSourceFile plainHost noteFile twoCallouts
       (''Todos'' @ [LF] @ ''[Other](Other.md#^q1)'' @ [LF] @ ''keep'' @ [LF] @
        ''[Note](Note.md#^abc)'' @ [LF] @ ''a'' @ [LF] @ ''b'' @ [LF, LF] @
        ''[Note](Note.md#^def)'' @ [LF] @ ''c'' @ [LF])
     = (''Todos'' @ [LF] @ ''[Other](Other.md#^q1)'' @ [LF] @ ''keep'' @ [LF] @
        ''[Note](Note.md#^abc)'' @ [LF] @ ''a'' @ [LF] @ ''b'' @ [LF, LF] @
        ''[Note](Note.md#^def)'' @ [LF] @ ''c'' @ [LF], False)"
proof -
  have cr: "CR \<notin> set staleMaster" by code_simp
  have wl: "wellLinked plainHost noteFile twoCallouts" by code_simp
  have m: "updateMasterText plainHost noteFile twoCallouts staleMaster
     = ''Todos'' @ [LF] @ ''[Other](Other.md#^q1)'' @ [LF] @ ''keep'' @ [LF] @
       ''[Note](Note.md#^abc)'' @ [LF] @ ''a'' @ [LF] @ ''b'' @ [LF, LF] @
       ''[Note](Note.md#^def)'' @ [LF] @ ''c'' @ [LF]"
    by code_simp
  show ?thesis
    using second_pass_no_write [OF cr wl] cr wl m by simp
qed

text \<open>
  C2, as stated, fails: the only body line of the callout is itself a link line, so the
  master parser ends the chunk of the callout at that line, and the second pass adds
  the body again below the header; the master grows at every pass.
\<close>

theorem second_pass_writes_counterexample:
  "map blockId (snd (extractTrackedCallouts linkBodySource [''todo''] True fixedIds)) = [Some ''abc''] \<and>
   map bodyLines (snd (extractTrackedCallouts linkBodySource [''todo''] True fixedIds)) = [[''[x](y#^z)'']] \<and>
   updateMasterText plainHost noteFile
       (snd (extractTrackedCallouts linkBodySource [''todo''] True fixedIds)) []
     = [LF] @ ''[Note](Note.md#^abc)'' @ [LF] @ ''[x](y#^z)'' @ [LF] \<and>
   updateMasterForSourceFile plainHost noteFile
       (snd (extractTrackedCallouts linkBodySource [''todo''] True fixedIds))
       ([LF] @ ''[Note](Note.md#^abc)'' @ [LF] @ ''[x](y#^z)'' @ [LF])
     = ([LF] @ ''[Note](Note.md#^abc)'' @ [LF] @ ''[x](y#^z)'' @ [LF, LF] @ ''[x](y#^z)'' @ [LF], True)"
  by code_simp

section \<open>Round trip\<close>

lemma chunksOfBlocks_own:
  "map (\<lambda>e. (chBlockId e, chBodyLines e))
     (filter (\<lambda>c. sourcePath c = fpath sf) (chunksOfBlocks h i Bs))
   = map (\<lambda>B. (blockIdOf h B, trimTrailingBlankLines (tl B))) (filter (isOwn h sf) Bs)"
  by (induction Bs arbitrary: i) (simp_all add: blockIdOf_def isOwn_def)

lemma trimTrailing_snoc: "trimTrailingBlankLines (xs @ [[]]) = trimTrailingBlankLines xs"
  by (simp add: trimTrailingBlankLines_def isBlank_def trim_def trimStart_def trimEnd_def)

lemma trimTrailing_idem:
  "trimTrailingBlankLines (trimTrailingBlankLines xs) = trimTrailingBlankLines xs"
  by (simp add: trimTrailingBlankLines_def)

lemma entries_settled:
  assumes wl: "wellLinked h sf cs" and f: "masterForm h sf cs ks pre Bs"
    and M: "splitLines M = pre @ concat Bs"
  shows "map (\<lambda>e. (chBlockId e, chBodyLines e)) (entriesFor h M (fpath sf))
         = map (\<lambda>k. (idText (blockId k), trimTrailingBlankLines (bodyLines k))) ks"
proof -
  have s: "settledBlocks h sf cs ks Bs" and pre: "linkFree h pre"
    using f by (simp_all add: masterForm_def)
  have own: "filter (isOwn h sf) Bs = map (chunkFor sf) ks" and ks: "set ks \<subseteq> set cs"
    and wf: "\<forall>B \<in> set Bs. wfBlock h B"
    using s by (simp_all add: settledBlocks_def)
  have "entriesFor h M (fpath sf)
        = filter (\<lambda>c. sourcePath c = fpath sf) (chunksOfBlocks h (length pre) Bs)"
    using chunksFrom_blocks [OF pre wf, of 0] M
    by (simp add: entriesFor_def parseMasterChunks_def Let_def)
  then have "map (\<lambda>e. (chBlockId e, chBodyLines e)) (entriesFor h M (fpath sf))
        = map (\<lambda>B. (blockIdOf h B, trimTrailingBlankLines (tl B))) (map (chunkFor sf) ks)"
    by (simp add: chunksOfBlocks_own own)
  also have "\<dots> = map (\<lambda>k. (idText (blockId k), trimTrailingBlankLines (bodyLines k))) ks"
  proof -
    have "(blockIdOf h (chunkFor sf k), trimTrailingBlankLines (tl (chunkFor sf k)))
          = (idText (blockId k), trimTrailingBlankLines (bodyLines k))" if "k \<in> set ks" for k
    proof -
      have "k \<in> set cs" using that ks by auto
      from chunkFor_facts(3) [OF wl this]
      have "idText (blockId k) = blockIdOf h (chunkFor sf k)" by (simp add: idText_def)
      then show ?thesis by (simp add: chunkFor_eq trimTrailing_snoc)
    qed
    then show ?thesis by simp
  qed
  finally show ?thesis .
qed

lemma kept_ids:
  "map blockId (kept h sf cs Bs)
   = map Some (filter (\<lambda>b. calloutsById cs (Some b) \<noteq> None)
        (map (blockIdOf h) (filter (isOwn h sf) Bs)))"
proof (induction Bs)
  case Nil
  show ?case by (simp add: kept_def)
next
  case (Cons B Bs)
  have k: "kept h sf cs (B # Bs) = (if isOwn h sf B then
                         (case calloutsById cs (Some (blockIdOf h B)) of
                            None \<Rightarrow> [] | Some d \<Rightarrow> [d])
                       else []) @ kept h sf cs Bs"
    by (simp add: kept_def)
  show ?case
    using Cons by (auto simp: k dest: calloutsById_Some split: option.splits)
qed

lemma kept_new_distinct:
  assumes "distinct (map blockId cs)"
    and "distinct (map (blockIdOf h) (filter (isOwn h sf) Bs))"
  shows "distinct (map blockId (kept h sf cs Bs @ newCallouts h sf cs Bs))"
proof -
  have a: "distinct (map blockId (kept h sf cs Bs))"
    unfolding kept_ids using assms(2) by (simp add: distinct_map_filter distinct_map inj_on_def)
  have b: "distinct (map blockId (newCallouts h sf cs Bs))"
    unfolding newCallouts_def using assms(1) by (rule distinct_map_filter)
  have "set (map blockId (kept h sf cs Bs)) \<subseteq> Some ` blockIdOf h ` set (filter (isOwn h sf) Bs)"
    unfolding kept_ids by auto
  moreover have "set (map blockId (newCallouts h sf cs Bs)) \<inter> Some ` blockIdOf h ` set (filter (isOwn h sf) Bs) = {}"
    by (auto simp: newCallouts_def)
  ultimately have "set (map blockId (kept h sf cs Bs)) \<inter> set (map blockId (newCallouts h sf cs Bs)) = {}"
    by blast
  then show ?thesis using a b by simp
qed

lemma unquote_quote:
  "\<forall>l \<in> set b. isBlank l \<longrightarrow> l = [] \<Longrightarrow> map unquoteLine (quoteBodyLines b) = b"
proof -
  assume a: "\<forall>l \<in> set b. isBlank l \<longrightarrow> l = []"
  have "unquoteLine (if trim l = [] then ''>'' else ''> '' @ l) = l" if "l \<in> set b" for l
    using a that by (auto simp: isBlank_def isSpace_def)
  then show ?thesis by (simp add: quoteBodyLines_def map_idI)
qed

lemma calloutStep_body:
  assumes "calloutStep tt a gen n i l rest = (emit, Some c, n', i', rest')"
  shows "\<exists>b. bodyLines c = trimTrailingBlankLines b"
  using assms
  by (auto simp: calloutStep_def Let_def split: option.splits if_splits)

lemma scan_bodies_trimmed:
  "c \<in> set (snd (scanCallouts tt a gen n i ls)) \<Longrightarrow> trimTrailingBlankLines (bodyLines c) = bodyLines c"
proof (induction "scanMeasure ls" arbitrary: ls n i rule: less_induct)
  case less
  show ?case
  proof (cases ls)
    case Nil
    then show ?thesis using less.prems by simp
  next
    case (Cons l rest)
    obtain emit co n1 i1 rest1 where st: "calloutStep tt a gen n i l rest = (emit, co, n1, i1, rest1)"
      by (metis prod_cases5)
    have m: "scanMeasure rest1 < scanMeasure ls"
      using calloutStep_decreases [OF st] Cons by simp
    from less.prems scanCallouts_Cons [OF st] Cons
    consider "co = Some c" | "c \<in> set (snd (scanCallouts tt a gen n1 i1 rest1))"
      by (auto split: option.splits)
    then show ?thesis
    proof cases
      case 1
      then obtain b where "bodyLines c = trimTrailingBlankLines b"
        using calloutStep_body st by blast
      then show ?thesis by (simp add: trimTrailing_idem)
    next
      case 2
      then show ?thesis using less.hyps [OF m] by simp
    qed
  qed
qed

lemma extract_bodies_trimmed:
  "c \<in> set (snd (extractTrackedCallouts text tts a gen)) \<Longrightarrow>
   trimTrailingBlankLines (bodyLines c) = bodyLines c"
  by (simp add: extract_callouts scan_bodies_trimmed)

lemma find_SomeD: "find P xs = Some x \<Longrightarrow> x \<in> set xs \<and> P x"
  by (induction xs) (auto split: if_splits)

lemma round_trip_core:
  assumes crT: "CR \<notin> set T" and crM: "CR \<notin> set M0"
    and cs: "cs = snd (extractTrackedCallouts T [ty] False g0)"
    and wl: "wellLinked h sf cs"
    and nb: "\<forall>c \<in> set cs. \<forall>l \<in> set (bodyLines c). isBlank l \<longrightarrow> l = []"
    and old: "distinct (map chBlockId (entriesFor h M0 (fpath sf)))"
  shows "list_all2 (\<lambda>c' c. ctype c' = ctype c \<and> blockId c' = blockId c \<and> bodyLines c' = bodyLines c)
           (snd (extractTrackedCallouts
              (applyMasterEditsToSource T ty (entriesFor h (updateMasterText h sf cs M0) (fpath sf)))
              [ty] False g))
           cs"
proof -
  let ?M1 = "updateMasterText h sf cs M0"
  let ?E = "entriesFor h ?M1 (fpath sf)"
  obtain pre Bs where d: "splitLines M0 = pre @ concat Bs" "linkFree h pre" "\<forall>B \<in> set Bs. wfBlock h B"
    using blocks_exist [of "splitLines M0" h] by blast
  have "\<forall>l \<in> set (pre @ concat Bs). plain l"
    using splitLines_plain [OF crM] d(1) by metis
  then have p1: "\<forall>l \<in> set pre. plain l" and p2: "\<forall>B \<in> set Bs. wfBlock h B \<and> (\<forall>l \<in> set B. plain l)"
    using d(3) by auto
  let ?ks = "kept h sf cs Bs @ newCallouts h sf cs Bs"
  from pass_form [OF wl d(1,2) p1 p2]
  obtain pre' Bs' where f: "splitLines ?M1 = pre' @ concat Bs'" "masterForm h sf cs ?ks pre' Bs'"
    by blast
  have ks: "set ?ks \<subseteq> set cs"
    using f(2) by (simp add: masterForm_def settledBlocks_def)
  have tr: "trimTrailingBlankLines (bodyLines k) = bodyLines k" if "k \<in> set cs" for k
    using that extract_bodies_trimmed cs by blast
  have "map (\<lambda>e. (chBlockId e, chBodyLines e)) ?E
         = map (\<lambda>k. (idText (blockId k), trimTrailingBlankLines (bodyLines k))) ?ks"
    by (rule entries_settled [OF wl f(2,1)])
  also have "\<dots> = map (\<lambda>k. (idText (blockId k), bodyLines k)) ?ks"
    using tr ks by (intro map_cong) auto
  finally have E: "map (\<lambda>e. (chBlockId e, chBodyLines e)) ?E
         = map (\<lambda>k. (idText (blockId k), bodyLines k)) ?ks" .
  have Emem: "\<exists>k \<in> set cs. blockId k = Some (chBlockId e) \<and> chBodyLines e = bodyLines k"
    if "e \<in> set ?E" for e
  proof -
    have "(chBlockId e, chBodyLines e) \<in> set (map (\<lambda>e. (chBlockId e, chBodyLines e)) ?E)"
      using that by (simp add: image_iff) blast
    then obtain k where k: "k \<in> set ?ks" "chBlockId e = idText (blockId k)" "chBodyLines e = bodyLines k"
      unfolding E by auto
    have "k \<in> set cs" using k(1) ks by blast
    moreover from this have "blockId k = Some (idText (blockId k))"
      using wl by (auto simp: wellLinked_def idText_def split: option.splits)
    ultimately show ?thesis using k(2,3) by auto
  qed
  have "entriesFor h M0 (fpath sf)
        = filter (\<lambda>c. sourcePath c = fpath sf) (chunksOfBlocks h (length pre) Bs)"
    using chunksFrom_blocks [OF d(2,3), of 0] d(1)
    by (simp add: entriesFor_def parseMasterChunks_def Let_def)
  then have "distinct (map (blockIdOf h) (filter (isOwn h sf) Bs))"
    using old by (simp add: chunksOfBlocks_ids)
  then have dk: "distinct (map blockId ?ks)"
    using kept_new_distinct [of cs h sf Bs] wl by (simp add: wellLinked_def)
  have "map chBlockId ?E = map fst (map (\<lambda>e. (chBlockId e, chBodyLines e)) ?E)" by simp
  also have "\<dots> = map idText (map blockId ?ks)" unfolding E by simp
  finally have ids: "map chBlockId ?E = map idText (map blockId ?ks)" .
  have inj: "inj_on idText (set (map blockId ?ks))"
  proof (rule inj_onI)
    fix x y assume xy: "x \<in> set (map blockId ?ks)" "y \<in> set (map blockId ?ks)"
      and eq: "idText x = idText y"
    have "z \<noteq> None" if "z \<in> set (map blockId ?ks)" for z
    proof -
      from that obtain k where "k \<in> set ?ks" "z = blockId k" by auto
      then show ?thesis using ks wl by (auto simp: wellLinked_def split: option.splits)
    qed
    then have "x \<noteq> None" "y \<noteq> None" using xy by blast+
    then show "x = y" using eq by (cases x; cases y) (simp_all add: idText_def)
  qed
  have "distinct (map idText (map blockId ?ks))"
    by (subst distinct_map) (intro conjI dk inj)
  then have dist: "distinct (map chBlockId ?E)"
    unfolding ids .
  have pl: "\<forall>e \<in> set ?E. \<forall>l \<in> set (chBodyLines e). plain l"
    using Emem wl by (fastforce simp: wellLinked_def)
  let ?asc = "rev (sortOps (sourceOps cs ?E))"
  have r: "list_all2 (sameCallout ?asc)
           (snd (extractTrackedCallouts (applyMasterEditsToSource T ty ?E) [ty] False g)) cs"
    by (rule edits_reparse [OF crT dist pl cs])
  have ord: "orderedFrom 0 (length (splitLines T)) cs"
    unfolding cs by (rule extract_False_ordered)
  have di: "distinct (map blockId cs)" using wl by (simp add: wellLinked_def)
  have body: "newBody ?asc c = bodyLines c" if c: "c \<in> set cs" for c
  proof (cases "find (\<lambda>p. opStart p = startLine c + 1) ?asc")
    case None
    then show ?thesis by (simp add: newBody_def)
  next
    case (Some p)
    then have "p \<in> set ?asc" and st: "opStart p = startLine c + 1"
      using find_SomeD [OF Some] by simp_all
    then have "p \<in> set (sourceOps cs ?E)" by (simp add: sortOps_set)
    from sourceOps_member [OF this] obtain e c' where
      e: "e \<in> set ?E" and c': "c' \<in> set cs" "blockId c' = Some (chBlockId e)"
      and p: "p = \<lparr>opStart = startLine c' + 1, opEnd = quoteEndLine c',
                   opInsert = quoteBodyLines (chBodyLines e)\<rparr>"
      by blast
    have "startLine c' = startLine c" using st p by simp
    then have cc: "c' = c" using orderedFrom_inj [OF ord c'(1) c] by simp
    obtain k where k: "k \<in> set cs" "blockId k = Some (chBlockId e)" "chBodyLines e = bodyLines k"
      using Emem [OF e] by blast
    have "inj_on blockId (set cs)" using di by (simp add: distinct_map)
    moreover have "blockId k = blockId c" using k(2) c'(2) cc by simp
    ultimately have "k = c" using k(1) c by (rule inj_onD)
    then have "opInsert p = quoteBodyLines (bodyLines c)" using p k(3) by simp
    then have "newBody ?asc c = trimTrailingBlankLines (map unquoteLine (quoteBodyLines (bodyLines c)))"
      using Some by (simp add: newBody_def)
    also have "\<dots> = bodyLines c"
      using unquote_quote [of "bodyLines c"] nb c tr [OF c] by simp
    finally show ?thesis .
  qed
  show ?thesis
    using r
  proof (rule list.rel_mono_strong)
    fix c' c
    assume "sameCallout ?asc c' c" "c \<in> set cs"
    then show "ctype c' = ctype c \<and> blockId c' = blockId c \<and> bodyLines c' = bodyLines c"
      using body by (simp add: sameCallout_def)
  qed
qed

lemma extract_no_CR:
  assumes "CR \<notin> set text" "\<forall>k. validId (gen k)"
  shows "CR \<notin> set (fst (extractTrackedCallouts text tts a gen))"
proof -
  have "\<forall>x \<in> set (splitLines text). plain x"
    using assms(1) splitLines_plain by blast
  then have "\<forall>x \<in> set (fst (scanCallouts (uniqLower tts) a gen 0 0 (splitLines text))). plain x"
    using assms(2) by (intro scan_out_plain) (simp_all add: validId_plain)
  then show ?thesis
    unfolding extract_text by (rule joinLines_no_CR)
qed

lemma numberedIds_valid: "validId (numberedIds k)"
  by (simp add: numberedIds_def validId_def isIdChar_def Let_def list_all_iff)

text \<open>
  C1, as amended. Let the source text have no CR and the generated identifiers be
  well formed; let \<open>text1\<close> and \<open>cs\<close> be the patched text and the callouts of the type
  that the source pass finds (with the tracked types \<open>tts\<close> and identifier insertion),
  and let the parse of \<open>text1\<close> for the type alone, as \<open>applyMasterEditsToSource\<close>
  runs it, find the same callouts. Let the callouts have pairwise distinct identifiers,
  link lines that are read back with their path and identifier, body lines without CR or
  LF none of which is a link line or consists of white space only; and let the old
  master have no CR and no two chunks of the source file with the same identifier. Then
  after \<open>updateMasterForSourceFile\<close> and \<open>applyMasterEditsToSource\<close> with the entries of
  the new master, the source has the same callouts with the same identifiers and the
  same body lines.
\<close>

theorem round_trip_restores_bodies:
  assumes "CR \<notin> set sourceText" and "\<forall>k. validId (gen k)" and "CR \<notin> set masterText"
    and "text1 = fst (extractTrackedCallouts sourceText tts True gen)"
    and "cs = calloutsOfType ty (snd (extractTrackedCallouts sourceText tts True gen))"
    and "snd (extractTrackedCallouts text1 [ty] False gen) = cs"
    and "wellLinked h sf cs"
    and "\<forall>c \<in> set cs. \<forall>l \<in> set (bodyLines c). isBlank l \<longrightarrow> l = []"
    and "distinct (map chBlockId (entriesFor h masterText (fpath sf)))"
    and "master1 = updateMasterText h sf cs masterText"
    and "text2 = applyMasterEditsToSource text1 ty (entriesFor h master1 (fpath sf))"
  shows "map bodyLines (snd (extractTrackedCallouts text2 [ty] False gen')) = map bodyLines cs \<and>
         map blockId (snd (extractTrackedCallouts text2 [ty] False gen')) = map blockId cs"
proof -
  have cr1: "CR \<notin> set text1"
    unfolding assms(4) using assms(1,2) by (rule extract_no_CR)
  have "list_all2 (\<lambda>c' c. ctype c' = ctype c \<and> blockId c' = blockId c \<and> bodyLines c' = bodyLines c)
           (snd (extractTrackedCallouts text2 [ty] False gen')) cs"
    unfolding assms(10,11)
    by (rule round_trip_core [OF cr1 assms(3) assms(6) [symmetric] assms(7,8,9)])
  then show ?thesis
    by (induction rule: list_all2_induct) simp_all
qed

theorem round_trip_restores_bodies_witness:
  "CR \<notin> set twoTypeSource \<and> CR \<notin> set staleMaster \<and>
   fst (extractTrackedCallouts twoTypeSource [''todo'', ''questions''] True numberedIds)
     = ''> [!todo]'' @ [LF] @ ''> a'' @ [LF] @ ''> b'' @ [LF, LF] @ ''^abc'' @ [LF, LF] @
       ''> [!questions]'' @ [LF] @ ''> why'' @ [LF] @ ''^new'' @ [LF, LF] @
       ''> [!todo]'' @ [LF] @ ''>c'' @ [LF, LF] @ ''^new0'' @ [LF] \<and>
   map bodyLines (calloutsOfType ''todo''
       (snd (extractTrackedCallouts twoTypeSource [''todo'', ''questions''] True numberedIds)))
     = [[''a'', ''b''], [''c'']] \<and>
   map blockId (calloutsOfType ''todo''
       (snd (extractTrackedCallouts twoTypeSource [''todo'', ''questions''] True numberedIds)))
     = [Some ''abc'', Some ''new0''] \<and>
   map chBlockId (entriesFor plainHost staleMaster ''Note.md'') = [''abc'', ''gone''] \<and>
   updateMasterText plainHost noteFile
       (calloutsOfType ''todo''
          (snd (extractTrackedCallouts twoTypeSource [''todo'', ''questions''] True numberedIds)))
       staleMaster
     = ''Todos'' @ [LF] @ ''[Other](Other.md#^q1)'' @ [LF] @ ''keep'' @ [LF] @
       ''[Note](Note.md#^abc)'' @ [LF] @ ''a'' @ [LF] @ ''b'' @ [LF, LF] @
       ''[Note](Note.md#^new0)'' @ [LF] @ ''c'' @ [LF] \<and>
   map bodyLines (snd (extractTrackedCallouts
       (applyMasterEditsToSource
          (fst (extractTrackedCallouts twoTypeSource [''todo'', ''questions''] True numberedIds))
          ''todo''
          (entriesFor plainHost
             (updateMasterText plainHost noteFile
                (calloutsOfType ''todo''
                   (snd (extractTrackedCallouts twoTypeSource [''todo'', ''questions''] True numberedIds)))
                staleMaster)
             ''Note.md''))
       [''todo''] False numberedIds))
     = [[''a'', ''b''], [''c'']]"
proof -
  let ?ex = "extractTrackedCallouts twoTypeSource [''todo'', ''questions''] True numberedIds"
  let ?cs = "calloutsOfType ''todo'' (snd ?ex)"
  have cr: "CR \<notin> set twoTypeSource" by code_simp
  have crm: "CR \<notin> set staleMaster" by code_simp
  have va: "\<forall>k. validId (numberedIds k)" by (simp add: numberedIds_valid)
  have t1: "fst ?ex
     = ''> [!todo]'' @ [LF] @ ''> a'' @ [LF] @ ''> b'' @ [LF, LF] @ ''^abc'' @ [LF, LF] @
       ''> [!questions]'' @ [LF] @ ''> why'' @ [LF] @ ''^new'' @ [LF, LF] @
       ''> [!todo]'' @ [LF] @ ''>c'' @ [LF, LF] @ ''^new0'' @ [LF]"
    by code_simp
  have link: "snd (extractTrackedCallouts (fst ?ex) [''todo''] False numberedIds) = ?cs"
    by code_simp
  have wl: "wellLinked plainHost noteFile ?cs" by code_simp
  have bodies: "map bodyLines ?cs = [[''a'', ''b''], [''c'']]" by code_simp
  have ids: "map blockId ?cs = [Some ''abc'', Some ''new0'']" by code_simp
  have "\<forall>l \<in> set [''a'', ''b'']. isBlank l \<longrightarrow> l = []" "\<forall>l \<in> set [''c'']. isBlank l \<longrightarrow> l = []"
    by code_simp+
  then have "\<forall>b \<in> set (map bodyLines ?cs). \<forall>l \<in> set b. isBlank l \<longrightarrow> l = []"
    unfolding bodies by simp
  then have nb: "\<forall>c \<in> set ?cs. \<forall>l \<in> set (bodyLines c). isBlank l \<longrightarrow> l = []"
    by simp
  have old: "map chBlockId (entriesFor plainHost staleMaster ''Note.md'') = [''abc'', ''gone'']"
    by code_simp
  then have d: "distinct (map chBlockId (entriesFor plainHost staleMaster (fpath noteFile)))"
    by (simp add: noteFile_def)
  have m: "updateMasterText plainHost noteFile ?cs staleMaster
     = ''Todos'' @ [LF] @ ''[Other](Other.md#^q1)'' @ [LF] @ ''keep'' @ [LF] @
       ''[Note](Note.md#^abc)'' @ [LF] @ ''a'' @ [LF] @ ''b'' @ [LF, LF] @
       ''[Note](Note.md#^new0)'' @ [LF] @ ''c'' @ [LF]"
    by code_simp
  have fp: "fpath noteFile = ''Note.md''" by (simp add: noteFile_def)
  show ?thesis
    using round_trip_restores_bodies [OF cr va crm refl refl link wl nb d refl refl,
        of numberedIds] cr crm t1 bodies ids old m
    by (simp only: fp simp_thms)
qed

text \<open>
  C1, as stated, fails: the second body line of the callout is a link line, the master
  parser ends the chunk of the callout above it, and the way back replaces the body by
  the first line alone.
\<close>

theorem round_trip_loses_line_counterexample:
  "extractTrackedCallouts linkInBodySource [''todo''] True fixedIds
     = (linkInBodySource,
        [\<lparr>ctype = ''todo'', blockId = Some ''abc'', bodyLines = [''see'', ''[x](y#^z)''],
          startLine = 0, quoteEndLine = 3, idLine = Some 4\<rparr>]) \<and>
   updateMasterText plainHost noteFile
       (snd (extractTrackedCallouts linkInBodySource [''todo''] True fixedIds)) []
     = [LF] @ ''[Note](Note.md#^abc)'' @ [LF] @ ''see'' @ [LF] @ ''[x](y#^z)'' @ [LF] \<and>
   applyMasterEditsToSource linkInBodySource ''todo''
       (entriesFor plainHost
          ([LF] @ ''[Note](Note.md#^abc)'' @ [LF] @ ''see'' @ [LF] @ ''[x](y#^z)'' @ [LF]) ''Note.md'')
     = ''> [!todo]'' @ [LF] @ ''> see'' @ [LF, LF] @ ''^abc'' @ [LF] \<and>
   map bodyLines (snd (extractTrackedCallouts
       (''> [!todo]'' @ [LF] @ ''> see'' @ [LF, LF] @ ''^abc'' @ [LF]) [''todo''] False fixedIds))
     = [[''see'']]"
  by code_simp

section \<open>Callouts without identifier\<close>

lemma calloutStep_fields:
  assumes "calloutStep tt a gen n i l rest = (emit, Some c, n1, i1, rest1)"
  shows "parseCalloutStart l = Some (ctype c) \<and>
         bodyLines c = trimTrailingBlankLines (map unquoteLine (takeWhile isQuoted rest)) \<and>
         (blockId c = None \<longleftrightarrow> idLine c = None)"
  using assms
  by (auto simp: calloutStep_def Let_def split: option.splits if_splits)

lemma scan_same_callouts:
  "list_all2 (\<lambda>c c'. ctype c = ctype c' \<and> bodyLines c = bodyLines c' \<and>
                      (blockId c = None \<longleftrightarrow> idLine c = None))
     (snd (scanCallouts tt False gen' n' j ls)) (snd (scanCallouts tt True gen n i ls))"
proof (induction "length ls" arbitrary: ls n i n' j rule: less_induct)
  case less
  show ?case
  proof (cases ls)
    case Nil
    then show ?thesis by simp
  next
    case (Cons l rest)
    show ?thesis
    proof (cases "isTrackedStart tt l")
      case False
      have "length rest < length ls" using Cons by simp
      from less.hyps [OF this] show ?thesis
        using scanCallouts_Cons [OF calloutStep_untracked [OF False]] Cons by simp
    next
      case True
      then obtain ty where ty: "parseCalloutStart l = Some ty" "ty \<in> set tt"
        by (auto simp: isTrackedStart_def split: option.splits)
      show ?thesis
      proof (cases "foundId (dropWhile isQuoted rest)")
        case None
        let ?a = "dropWhile isQuoted rest"
        note sT = calloutStep_insert [OF ty None, of gen n i]
        obtain emit c i' where sF: "calloutStep tt False gen' n' j l rest = (emit, Some c, n', i', ?a)"
          and c: "blockId c = None"
          using calloutStep_none_False [OF ty None] by blast
        note fc = calloutStep_fields [OF sF]
        have "length ?a < length ls" using Cons length_dropWhile_le [of isQuoted rest] by simp
        from less.hyps [OF this] show ?thesis
          using scanCallouts_Cons [OF sT] scanCallouts_Cons [OF sF] c fc ty Cons
          by (simp add: scan_blankIfNeeded)
      next
        case (Some b)
        obtain emit c i' rest' where sT: "calloutStep tt True gen n i l rest = (emit, Some c, n, i', rest')"
          and len: "length rest' < length (l # rest)"
          and other: "\<forall>a' gen' n' j. \<exists>emit' c' j'. calloutStep tt a' gen' n' j l rest = (emit', Some c', n', j', rest') \<and>
              blockId c' = Some b"
          using calloutStep_found_shape [OF ty Some, of True gen n i] by blast
        obtain emit' c' j' where sF: "calloutStep tt False gen' n' j l rest = (emit', Some c', n', j', rest')"
          using other by blast
        note fT = calloutStep_fields [OF sT] and fF = calloutStep_fields [OF sF]
        have "length rest' < length ls" using len Cons by simp
        from less.hyps [OF this] show ?thesis
          using scanCallouts_Cons [OF sT] scanCallouts_Cons [OF sF] fT fF Cons
          by simp
      qed
    qed
  qed
qed

lemma scan_no_id:
  assumes "parseCalloutStart l = Some ty" "ty \<in> set tt"
    and "(case dropWhile isBlank (dropWhile isQuoted rest) of [] \<Rightarrow> None | x # _ \<Rightarrow> parseBlockId x) = None"
  shows "scanCallouts tt False gen n i (l # rest) =
           (l # takeWhile isQuoted rest @
              fst (scanCallouts tt False gen n (i + 1 + length (takeWhile isQuoted rest))
                     (dropWhile isQuoted rest)),
            \<lparr>ctype = ty, blockId = None,
              bodyLines = trimTrailingBlankLines (map unquoteLine (takeWhile isQuoted rest)),
              startLine = i, quoteEndLine = i + 1 + length (takeWhile isQuoted rest),
              idLine = None\<rparr>
            # snd (scanCallouts tt False gen n (i + 1 + length (takeWhile isQuoted rest))
                     (dropWhile isQuoted rest)))"
proof -
  let ?q = "i + 1 + length (takeWhile isQuoted rest)"
  have st: "calloutStep tt False gen n i l rest =
      (l # takeWhile isQuoted rest,
       Some \<lparr>ctype = ty, blockId = None,
             bodyLines = trimTrailingBlankLines (map unquoteLine (takeWhile isQuoted rest)),
             startLine = i, quoteEndLine = ?q, idLine = None\<rparr>,
       n, ?q, dropWhile isQuoted rest)"
    using assms by (simp add: calloutStep_def Let_def)
  show ?thesis
    using scanCallouts_Cons [OF st] by simp
qed

lemma no_id_untouched:
  assumes ord: "orderedFrom 0 m cs" and c: "c \<in> set cs" "blockId c = None"
    and p: "p \<in> set (sourceOps cs entries)"
  shows "opEnd p \<le> startLine c \<or> quoteEndLine c \<le> opStart p"
proof -
  obtain d where d: "d \<in> set cs" "blockId d \<noteq> None" "opStart p = startLine d + 1"
      "opEnd p = quoteEndLine d"
    using sourceOps_member [OF p] by fastforce
  have bc: "startLine c < quoteEndLine c" "quoteEndLine c \<le> nextIndex c"
    and bd: "startLine d < quoteEndLine d" "quoteEndLine d \<le> nextIndex d"
    using orderedFrom_bounds [OF ord c(1)] orderedFrom_bounds [OF ord d(1)] by simp_all
  have "c \<noteq> d" using c(2) d(2) by auto
  then consider "nextIndex c \<le> startLine d" | "nextIndex d \<le> startLine c"
    using sorted_wrt_cases [OF orderedFrom_sorted [OF ord] c(1) d(1)] by blast
  then show ?thesis
    using d bc bd by cases simp_all
qed

lemma no_id_same_body:
  assumes ord: "orderedFrom 0 m cs" and c: "c \<in> set cs" "blockId c = None"
    and ops: "set ops = set (sourceOps cs entries)"
  shows "newBody ops c = bodyLines c"
proof (cases "find (\<lambda>p. opStart p = startLine c + 1) ops")
  case None
  then show ?thesis by (simp add: newBody_def)
next
  case (Some p)
  then have "p \<in> set (sourceOps cs entries)" and st: "opStart p = startLine c + 1"
    using find_SomeD [OF Some] ops by simp_all
  then obtain d where d: "d \<in> set cs" "blockId d \<noteq> None" "opStart p = startLine d + 1"
    using sourceOps_member [of p cs entries] by fastforce
  then have "startLine d = startLine c" using st by simp
  then have "d = c" using orderedFrom_inj [OF ord d(1) c(1)] by simp
  then show ?thesis using d(2) c(2) by simp
qed

text \<open>
  C7, as amended. With \<open>autoInsertIds\<close> false no identifier is inserted: the returned
  text is the input's lines joined by LF. No tracked callout is skipped: the returned
  list has one callout for each callout that the parse with insertion returns, in the
  same order, with the same type and body lines; the callouts for which the parse with
  insertion generates an identifier are those returned here with a null \<open>blockId\<close>, and
  a callout has a null \<open>blockId\<close> exactly when it has a null \<open>idLine\<close>. Whenever the
  loop stands on a tracked header with no identifier line below its quoted lines, it
  pushes the callout with \<open>blockId\<close> and \<open>idLine\<close> null and resumes at
  \<open>quoteEndLine\<close>. For a source with no CR LF pair and entries with pairwise distinct
  block ids, \<open>applyMasterEditsToSource\<close> returns the source's lines with the ranges of
  its operations replaced simultaneously, and no range meets the lines of a callout
  without identifier (header line up to \<open>quoteEndLine\<close>). When moreover the source has
  no CR and the body lines of the entries have no CR or LF, the rewritten source has the
  same callouts, in the same order, with the same types and identifiers, each callout
  without identifier with the same body lines.
\<close>

theorem no_id_callout_reported:
  "fst (extractTrackedCallouts text tts False gen) = joinLines (splitLines text) \<and>
   list_all2 (\<lambda>c c'. ctype c = ctype c' \<and> bodyLines c = bodyLines c' \<and>
                      (blockId c = None \<longleftrightarrow> idLine c = None))
     (snd (extractTrackedCallouts text tts False gen))
     (snd (extractTrackedCallouts text tts True gen')) \<and>
   map blockId (snd (extractTrackedCallouts text tts True gen'))
     = assignIds gen' 0 (map blockId (snd (extractTrackedCallouts text tts False gen))) \<and>
   (\<forall>n i l rest ty'.
      parseCalloutStart l = Some ty' \<and> ty' \<in> set (uniqLower tts) \<and>
      (case dropWhile isBlank (dropWhile isQuoted rest) of [] \<Rightarrow> None | x # _ \<Rightarrow> parseBlockId x) = None
      \<longrightarrow>
      scanCallouts (uniqLower tts) False gen n i (l # rest) =
        (l # takeWhile isQuoted rest @
           fst (scanCallouts (uniqLower tts) False gen n (i + 1 + length (takeWhile isQuoted rest))
                  (dropWhile isQuoted rest)),
         \<lparr>ctype = ty', blockId = None,
           bodyLines = trimTrailingBlankLines (map unquoteLine (takeWhile isQuoted rest)),
           startLine = i, quoteEndLine = i + 1 + length (takeWhile isQuoted rest),
           idLine = None\<rparr>
         # snd (scanCallouts (uniqLower tts) False gen n (i + 1 + length (takeWhile isQuoted rest))
                  (dropWhile isQuoted rest)))) \<and>
   (crlfFree text \<and> distinct (map chBlockId entries) \<longrightarrow>
      applyMasterEditsToSource text ty entries
        = joinLines (replaceRanges 0 (splitLines text)
            (rev (sortOps (sourceOps (snd (extractTrackedCallouts text [ty] False gen)) entries)))) \<and>
      (\<forall>c \<in> set (snd (extractTrackedCallouts text [ty] False gen)). blockId c = None \<longrightarrow>
         (\<forall>p \<in> set (sourceOps (snd (extractTrackedCallouts text [ty] False gen)) entries).
            opEnd p \<le> startLine c \<or> quoteEndLine c \<le> opStart p))) \<and>
   (CR \<notin> set text \<and> distinct (map chBlockId entries) \<and>
    (\<forall>e \<in> set entries. \<forall>l \<in> set (chBodyLines e). plain l) \<longrightarrow>
      list_all2 (\<lambda>c' c. ctype c' = ctype c \<and> blockId c' = blockId c \<and>
                         (blockId c = None \<longrightarrow> bodyLines c' = bodyLines c))
        (snd (extractTrackedCallouts (applyMasterEditsToSource text ty entries) [ty] False gen))
        (snd (extractTrackedCallouts text [ty] False gen)))"
proof (intro conjI allI impI)
  show "fst (extractTrackedCallouts text tts False gen) = joinLines (splitLines text)"
    by (rule extract_False_text)
  show "list_all2 (\<lambda>c c'. ctype c = ctype c' \<and> bodyLines c = bodyLines c' \<and>
                      (blockId c = None \<longleftrightarrow> idLine c = None))
     (snd (extractTrackedCallouts text tts False gen))
     (snd (extractTrackedCallouts text tts True gen'))"
    by (simp add: extract_callouts scan_same_callouts)
  show "map blockId (snd (extractTrackedCallouts text tts True gen'))
     = assignIds gen' 0 (map blockId (snd (extractTrackedCallouts text tts False gen)))"
    by (simp add: extract_callouts scan_ids_assigned [of _ gen' 0 0 _ gen 0 0])
next
  fix n i l rest ty'
  assume "parseCalloutStart l = Some ty' \<and> ty' \<in> set (uniqLower tts) \<and>
      (case dropWhile isBlank (dropWhile isQuoted rest) of [] \<Rightarrow> None | x # _ \<Rightarrow> parseBlockId x) = None"
  then show "scanCallouts (uniqLower tts) False gen n i (l # rest) =
        (l # takeWhile isQuoted rest @
           fst (scanCallouts (uniqLower tts) False gen n (i + 1 + length (takeWhile isQuoted rest))
                  (dropWhile isQuoted rest)),
         \<lparr>ctype = ty', blockId = None,
           bodyLines = trimTrailingBlankLines (map unquoteLine (takeWhile isQuoted rest)),
           startLine = i, quoteEndLine = i + 1 + length (takeWhile isQuoted rest),
           idLine = None\<rparr>
         # snd (scanCallouts (uniqLower tts) False gen n (i + 1 + length (takeWhile isQuoted rest))
                  (dropWhile isQuoted rest)))"
    by (intro scan_no_id) simp_all
next
  let ?cs = "snd (extractTrackedCallouts text [ty] False gen)"
  let ?ops = "sourceOps ?cs entries"
  assume h: "crlfFree text \<and> distinct (map chBlockId entries)"
  then show "applyMasterEditsToSource text ty entries
        = joinLines (replaceRanges 0 (splitLines text) (rev (sortOps ?ops)))"
    using edits_lines [OF _ _ refl] by blast
  have ord: "orderedFrom 0 (length (splitLines text)) ?cs"
    by (rule extract_False_ordered)
  show "\<forall>c \<in> set ?cs. blockId c = None \<longrightarrow>
         (\<forall>p \<in> set ?ops. opEnd p \<le> startLine c \<or> quoteEndLine c \<le> opStart p)"
    using no_id_untouched [OF ord] by blast
next
  let ?cs = "snd (extractTrackedCallouts text [ty] False gen)"
  let ?ops = "sourceOps ?cs entries"
  assume h: "CR \<notin> set text \<and> distinct (map chBlockId entries) \<and>
    (\<forall>e \<in> set entries. \<forall>l \<in> set (chBodyLines e). plain l)"
  have ord: "orderedFrom 0 (length (splitLines text)) ?cs"
    by (rule extract_False_ordered)
  have r: "list_all2 (sameCallout (rev (sortOps ?ops)))
           (snd (extractTrackedCallouts (applyMasterEditsToSource text ty entries) [ty] False gen)) ?cs"
    using h by (intro edits_reparse) simp_all
  show "list_all2 (\<lambda>c' c. ctype c' = ctype c \<and> blockId c' = blockId c \<and>
                         (blockId c = None \<longrightarrow> bodyLines c' = bodyLines c))
        (snd (extractTrackedCallouts (applyMasterEditsToSource text ty entries) [ty] False gen)) ?cs"
    using r
  proof (rule list.rel_mono_strong)
    fix c' c
    assume s: "sameCallout (rev (sortOps ?ops)) c' c" and c: "c \<in> set ?cs"
    have "newBody (rev (sortOps ?ops)) c = bodyLines c" if "blockId c = None"
      using no_id_same_body [OF ord c that, of "rev (sortOps ?ops)" entries]
      by (simp add: sortOps_set)
    then show "ctype c' = ctype c \<and> blockId c' = blockId c \<and>
               (blockId c = None \<longrightarrow> bodyLines c' = bodyLines c)"
      using s by (simp add: sameCallout_def)
  qed
qed

theorem no_id_callout_reported_witness:
  "snd (extractTrackedCallouts secondNoIdNote [''todo''] False noIds) =
     [\<lparr>ctype = ''todo'', blockId = Some ''abc'', bodyLines = [''a''], startLine = 0,
       quoteEndLine = 2, idLine = Some 3\<rparr>,
      \<lparr>ctype = ''todo'', blockId = None, bodyLines = [''b''], startLine = 5,
       quoteEndLine = 7, idLine = None\<rparr>] \<and>
   fst (extractTrackedCallouts secondNoIdNote [''todo''] False noIds) = secondNoIdNote \<and>
   map blockId (snd (extractTrackedCallouts secondNoIdNote [''todo''] True fixedIds))
     = [Some ''abc'', Some ''abc12345''] \<and>
   map bodyLines (snd (extractTrackedCallouts secondNoIdNote [''todo''] True fixedIds))
     = [[''a''], [''b'']] \<and>
   parseCalloutStart ''> [!todo]'' = Some ''todo'' \<and> ''todo'' \<in> set (uniqLower [''todo'']) \<and>
   (case dropWhile isBlank (dropWhile isQuoted [''> b'', ''after'']) of
      [] \<Rightarrow> None | x # _ \<Rightarrow> parseBlockId x) = None \<and>
   scanCallouts (uniqLower [''todo'']) False noIds 0 5 [''> [!todo]'', ''> b'', ''after''] =
     ([''> [!todo]'', ''> b'', ''after''],
      [\<lparr>ctype = ''todo'', blockId = None, bodyLines = [''b''], startLine = 5,
        quoteEndLine = 7, idLine = None\<rparr>]) \<and>
   CR \<notin> set secondNoIdNote \<and>
   map chBlockId (entriesFor plainHost editedMaster ''Note.md'') = [''abc'', ''zzz''] \<and>
   map (\<lambda>p. (opStart p, opEnd p))
     (sourceOps (snd (extractTrackedCallouts secondNoIdNote [''todo''] False noIds))
        (entriesFor plainHost editedMaster ''Note.md'')) = [(1, 2)] \<and>
   applyMasterEditsToSource secondNoIdNote ''todo'' (entriesFor plainHost editedMaster ''Note.md'')
     = ''> [!todo]'' @ [LF] @ ''> x'' @ [LF, LF] @ ''^abc'' @ [LF, LF] @
       ''> [!todo]'' @ [LF] @ ''> b'' @ [LF] @ ''after'' \<and>
   map blockId (snd (extractTrackedCallouts
       (applyMasterEditsToSource secondNoIdNote ''todo'' (entriesFor plainHost editedMaster ''Note.md''))
       [''todo''] False noIds)) = [Some ''abc'', None]"
proof -
  let ?E = "entriesFor plainHost editedMaster ''Note.md''"
  have cs: "snd (extractTrackedCallouts secondNoIdNote [''todo''] False noIds) =
     [\<lparr>ctype = ''todo'', blockId = Some ''abc'', bodyLines = [''a''], startLine = 0,
       quoteEndLine = 2, idLine = Some 3\<rparr>,
      \<lparr>ctype = ''todo'', blockId = None, bodyLines = [''b''], startLine = 5,
       quoteEndLine = 7, idLine = None\<rparr>]"
    by code_simp
  have j: "joinLines (splitLines secondNoIdNote) = secondNoIdNote" by code_simp
  have b: "map bodyLines (snd (extractTrackedCallouts secondNoIdNote [''todo''] True fixedIds))
     = [[''a''], [''b'']]"
    by code_simp
  have g: "fixedIds 0 = ''abc12345''" by (simp add: fixedIds_def)
  have h3: "parseCalloutStart ''> [!todo]'' = Some ''todo''" by code_simp
  have h4: "''todo'' \<in> set (uniqLower [''todo''])" by code_simp
  have h5: "(case dropWhile isBlank (dropWhile isQuoted [''> b'', ''after'']) of
      [] \<Rightarrow> None | x # _ \<Rightarrow> parseBlockId x) = None"
    by code_simp
  have sc: "scanCallouts (uniqLower [''todo'']) False noIds 0 5 [''> [!todo]'', ''> b'', ''after''] =
     ([''> [!todo]'', ''> b'', ''after''],
      [\<lparr>ctype = ''todo'', blockId = None, bodyLines = [''b''], startLine = 5,
        quoteEndLine = 7, idLine = None\<rparr>])"
    by code_simp
  have cr: "CR \<notin> set secondNoIdNote" by code_simp
  have ids: "map chBlockId ?E = [''abc'', ''zzz'']" by code_simp
  then have d: "distinct (map chBlockId ?E)" by simp
  have bodies: "map chBodyLines ?E = [[''x''], [''q'']]" by code_simp
  have "plain ''x''" "plain ''q''" by code_simp+
  then have "\<forall>b \<in> set (map chBodyLines ?E). \<forall>l \<in> set b. plain l"
    unfolding bodies by simp
  then have pl: "\<forall>e \<in> set ?E. \<forall>l \<in> set (chBodyLines e). plain l" by simp
  have ops: "map (\<lambda>p. (opStart p, opEnd p))
     (sourceOps (snd (extractTrackedCallouts secondNoIdNote [''todo''] False noIds)) ?E) = [(1, 2)]"
    by code_simp
  have out: "joinLines (replaceRanges 0 (splitLines secondNoIdNote)
            (rev (sortOps (sourceOps (snd (extractTrackedCallouts secondNoIdNote [''todo''] False noIds)) ?E))))
     = ''> [!todo]'' @ [LF] @ ''> x'' @ [LF, LF] @ ''^abc'' @ [LF, LF] @
       ''> [!todo]'' @ [LF] @ ''> b'' @ [LF] @ ''after''"
    by code_simp
  note t = no_id_callout_reported [of secondNoIdNote "[''todo'']" noIds fixedIds ?E "''todo''"]
  have t1: "fst (extractTrackedCallouts secondNoIdNote [''todo''] False noIds) = secondNoIdNote"
    using t j by simp
  have t3: "map blockId (snd (extractTrackedCallouts secondNoIdNote [''todo''] True fixedIds))
     = [Some ''abc'', Some ''abc12345'']"
    using t cs g by simp
  have cf: "crlfFree secondNoIdNote" using cr by (rule CR_free_crlfFree)
  have t5: "applyMasterEditsToSource secondNoIdNote ''todo'' ?E
     = ''> [!todo]'' @ [LF] @ ''> x'' @ [LF, LF] @ ''^abc'' @ [LF, LF] @
       ''> [!todo]'' @ [LF] @ ''> b'' @ [LF] @ ''after''"
    using t cf d out by simp
  have "list_all2 (\<lambda>c' c. ctype c' = ctype c \<and> blockId c' = blockId c \<and>
                         (blockId c = None \<longrightarrow> bodyLines c' = bodyLines c))
        (snd (extractTrackedCallouts (applyMasterEditsToSource secondNoIdNote ''todo'' ?E) [''todo''] False noIds))
        (snd (extractTrackedCallouts secondNoIdNote [''todo''] False noIds))"
    using t cr d pl by blast
  then have t6: "map blockId (snd (extractTrackedCallouts
       (applyMasterEditsToSource secondNoIdNote ''todo'' ?E) [''todo''] False noIds)) = [Some ''abc'', None]"
    unfolding cs by (auto simp: list_all2_Cons2)
  show ?thesis
    using cs t1 t3 b h3 h4 h5 sc cr ids ops t5 t6 by simp
qed

text \<open>
  C7, as stated, fails: with \<open>autoInsertIds\<close> false the tracked callout of
  \<open>> [!todo]\n> a\<close>, which has no identifier line, is in the returned list, with a
  null \<open>blockId\<close>.
\<close>

theorem no_id_callout_counterexample:
  "snd (extractTrackedCallouts (''> [!todo]'' @ [LF] @ ''> a'') [''todo''] False noIds) \<noteq> [] \<and>
   map blockId (snd (extractTrackedCallouts (''> [!todo]'' @ [LF] @ ''> a'') [''todo''] False noIds))
     = [None]"
  by code_simp

end
